theory Spec2Isabelle
  imports
    Main
    "HOL-Library.Word"
    "HOL-Library.List_Lexorder"
    "HOL-Library.Char_ord"
    "HOL-Library.Sublist"
begin

unbundle bit_operations_syntax

section \<open>Keys, files and ranges\<close>

text \<open>
  Keys are Go byte slices. \<open>bytes.Compare\<close> is the lexicographic order on unsigned
  bytes, which is the order of \<open>8 word list\<close>; Go strings compare the same way, which is the
  order of \<open>string\<close>. \<open>uint64\<close> arithmetic wraps, as \<open>64 word\<close> does.
\<close>

type_synonym bytes = "8 word list"
type_synonym uint64 = "64 word"

text \<open>
  An \<open>int64\<close> has the same 64 bits; \<open>sint\<close> reads it as the signed number, and its sums and
  products wrap as in Go.
\<close>

type_synonym int64 = "64 word"

text \<open>The fields of \<open>kvproto.File\<close> that the planner and the raw-range lookup read.\<close>

record File =
  Name :: string
  StartKey :: bytes
  EndKey :: bytes
  Cf :: string
  TotalKvs :: uint64
  TotalBytes :: uint64

text \<open>\<open>rtree.Range\<close>: a key range with the files that materialise it.\<close>

record rtree_Range =
  RangeStartKey :: bytes
  RangeEndKey :: bytes
  Files :: "File list"

record MergeRangesStat =
  TotalFiles :: int
  TotalWriteCFFile :: int
  TotalDefaultCFFile :: int
  TotalRegions :: int
  RegionKeysAvg :: int
  RegionBytesAvg :: int
  MergedRegions :: int
  MergedRegionKeysAvg :: int
  MergedRegionBytesAvg :: int

text \<open>The error classes of package \<open>berrors\<close> that the modelled functions return.\<close>

datatype error =
    ErrRestoreInvalidRange
  | ErrKVNotLeader
  | ErrKVEpochNotMatch
  | ErrKVUnknown

datatype panic = DivideByZero | IndexOutOfRange | SliceBoundsOutOfRange | MakeSliceCapOutOfRange

text \<open>
  What a call does: it returns its values, returns an error, or panics at run time.
\<close>

datatype 'a result = Ok 'a | Err error | Panic panic

definition writeCFName :: string where
  "writeCFName = ''write''"

definition defaultCFName :: string where
  "defaultCFName = ''default''"

text \<open>\<open>strings.Contains(s, sub)\<close>: \<open>sub\<close> occurs in \<open>s\<close> as a contiguous run.\<close>

definition strings_Contains :: "string \<Rightarrow> string \<Rightarrow> bool" where
  "strings_Contains s sub = sublist sub s"

text \<open>The test of the counting loop: the file belongs to the write column family.\<close>

definition isWriteCF :: "File \<Rightarrow> bool" where
  "isWriteCF file = (Cf file = writeCFName \<or> strings_Contains (Name file) writeCFName)"

text \<open>
  Modelled from the spec: \<open>beforeEnd\<close> of package \<open>restore\<close> is not among the sources. The spec
  has every key interval half-open, with an empty end key standing for plus infinity.
\<close>

definition beforeEnd :: "bytes \<Rightarrow> bytes \<Rightarrow> bool" where
  "beforeEnd key end = (key < end \<or> end = [])"

section \<open>The key-interval tree\<close>

text \<open>
  Package \<open>rtree\<close> (\<open>NewRangeTree\<close>, \<open>InsertRange\<close>, \<open>GetSortedRanges\<close>, \<open>BytesAndKeys\<close>) is
  not among the sources; \<open>MergeFileRanges\<close> only calls it. Each of its operations is modelled
  from what the spec says about it, and the tree is kept as the list of the ranges it holds.
\<close>

text \<open>
  Modelled from the spec: the overlap test of the tree of package \<open>rtree\<close> is missing. By
  the spec a range is a half-open interval of keys, and an empty end key means plus infinity.
\<close>

definition overlaps :: "rtree_Range \<Rightarrow> rtree_Range \<Rightarrow> bool" where
  "overlaps a b =
     (beforeEnd (RangeStartKey a) (RangeEndKey b) \<and> beforeEnd (RangeStartKey b) (RangeEndKey a))"

type_synonym RangeTree = "rtree_Range list"

text \<open>Modelled from the spec: \<open>rtree.NewRangeTree\<close> is missing. A new tree holds no range.\<close>

definition NewRangeTree :: RangeTree where
  "NewRangeTree = []"

text \<open>
  Modelled from the spec: \<open>rtree.InsertRange\<close> is missing. By the spec the insertion into
  the key-interval tree detects a duplicate or overlapping range. It gives back a range of the
  tree that the new range collides with, if there is one, and the tree after the call.
\<close>

definition InsertRange :: "RangeTree \<Rightarrow> rtree_Range \<Rightarrow> rtree_Range option \<times> RangeTree" where
  "InsertRange tree rg =
     (case find (overlaps rg) tree of
        Some out \<Rightarrow> (Some out, tree)
      | None \<Rightarrow> (None, tree @ [rg]))"

text \<open>
  Modelled from the spec: \<open>rtree.GetSortedRanges\<close> is missing. By the spec the ranges are
  sorted by start key.
\<close>

definition GetSortedRanges :: "RangeTree \<Rightarrow> rtree_Range list" where
  "GetSortedRanges tree = sort_key RangeStartKey tree"

text \<open>
  Modelled from the spec: \<open>rtree.BytesAndKeys\<close> is missing. By the spec a range's bytes and
  keys are the aggregate byte size and key count of its files; the totals are \<open>uint64\<close>.
\<close>

definition BytesAndKeys :: "rtree_Range \<Rightarrow> uint64 \<times> uint64" where
  "BytesAndKeys rg = (sum_list (map TotalBytes (Files rg)), sum_list (map TotalKvs (Files rg)))"

section \<open>The range-merge planner\<close>

text \<open>
  \<open>filesMap\<close> groups the files by start key; each group keeps the files in input order. The
  Go map is kept as an association list in order of first occurrence. Go iterates a map in
  an unspecified order; the only thing the order decides in \<open>MergeFileRanges\<close> is which of two
  colliding ranges is reported.
\<close>

fun addFile :: "File \<Rightarrow> (bytes \<times> File list) list \<Rightarrow> (bytes \<times> File list) list" where
  "addFile file [] = [(StartKey file, [file])]"
| "addFile file ((k, fs) # m) =
     (if k = StartKey file then (k, fs @ [file]) # m else (k, fs) # addFile file m)"

definition filesMap :: "File list \<Rightarrow> (bytes \<times> File list) list" where
  "filesMap files = foldl (\<lambda>m file. addFile file m) [] files"

text \<open>The range built for one group: the keys of its first file, and all its files.\<close>

definition groupRange :: "bytes \<times> File list \<Rightarrow> rtree_Range" where
  "groupRange g =
     \<lparr>RangeStartKey = StartKey (hd (snd g)), RangeEndKey = EndKey (hd (snd g)), Files = snd g\<rparr>"

text \<open>The insertion loop; it stops at the first collision.\<close>

fun insertGroups :: "RangeTree \<Rightarrow> (bytes \<times> File list) list \<Rightarrow> rtree_Range + RangeTree" where
  "insertGroups tree [] = Inr tree"
| "insertGroups tree (g # gs) =
     (case InsertRange tree (groupRange g) of
        (Some out, _) \<Rightarrow> Inl out
      | (None, tree') \<Rightarrow> insertGroups tree' gs)"

text \<open>
  \<open>tablecodec.DecodeTableID\<close> belongs to another module; it is the parameter \<open>decodeTableID\<close>
  throughout.
\<close>

definition needMerge ::
  "(bytes \<Rightarrow> int) \<Rightarrow> uint64 \<Rightarrow> uint64 \<Rightarrow> rtree_Range \<Rightarrow> rtree_Range \<Rightarrow> bool" where
  "needMerge decodeTableID splitSizeBytes splitKeyCount left right =
     (let (leftBytes, leftKeys) = BytesAndKeys left;
          (rightBytes, rightKeys) = BytesAndKeys right
      in if rightBytes = 0 then True
         else if leftBytes + rightBytes > splitSizeBytes then False
         else if leftKeys + rightKeys > splitKeyCount then False
         else if decodeTableID (RangeStartKey left) \<noteq> decodeTableID (RangeStartKey right) then False
         else True)"

text \<open>
  The sweep over the sorted ranges. \<open>left\<close> is \<open>sortedRanges[i-1]\<close> and the list is
  \<open>sortedRanges[i:]\<close>: a merge folds \<open>sortedRanges[i]\<close> into \<open>left\<close> and deletes it, otherwise \<open>i\<close>
  moves on and \<open>left\<close> is final.
\<close>

fun mergeLoop ::
  "(bytes \<Rightarrow> int) \<Rightarrow> uint64 \<Rightarrow> uint64 \<Rightarrow> rtree_Range \<Rightarrow> rtree_Range list \<Rightarrow> rtree_Range list" where
  "mergeLoop dec sz kc left [] = [left]"
| "mergeLoop dec sz kc left (right # rest) =
     (if needMerge dec sz kc left right
      then mergeLoop dec sz kc
             (left\<lparr>RangeEndKey := RangeEndKey right, Files := Files left @ Files right\<rparr>) rest
      else left # mergeLoop dec sz kc right rest)"

fun mergeSorted ::
  "(bytes \<Rightarrow> int) \<Rightarrow> uint64 \<Rightarrow> uint64 \<Rightarrow> rtree_Range list \<Rightarrow> rtree_Range list" where
  "mergeSorted dec sz kc [] = []"
| "mergeSorted dec sz kc (first # rest) = mergeLoop dec sz kc first rest"

definition emptyStat :: MergeRangesStat where
  "emptyStat = \<lparr>TotalFiles = 0, TotalWriteCFFile = 0, TotalDefaultCFFile = 0, TotalRegions = 0,
     RegionKeysAvg = 0, RegionBytesAvg = 0, MergedRegions = 0, MergedRegionKeysAvg = 0,
     MergedRegionBytesAvg = 0\<rparr>"

text \<open>
  \<open>MergeFileRanges\<close>. The counters are Go \<open>int\<close>s that count list elements; \<open>uint64(n)\<close> is
  \<open>of_nat n\<close>, and \<open>int(x)\<close> of a \<open>uint64\<close> reads the same bits as a signed number. An integer
  division by zero panics.
\<close>

definition MergeFileRanges ::
  "(bytes \<Rightarrow> int) \<Rightarrow> File list \<Rightarrow> uint64 \<Rightarrow> uint64 \<Rightarrow> (rtree_Range list \<times> MergeRangesStat) result" where
  "MergeFileRanges decodeTableID files splitSizeBytes splitKeyCount =
     (if files = [] then Ok ([], emptyStat)
      else
        let totalBytes = sum_list (map TotalBytes files);
            totalKvs = sum_list (map TotalKvs files);
            totalFiles = length files;
            writeCFFile = length (filter isWriteCF files);
            defaultCFFile = length (filter (\<lambda>file. \<not> isWriteCF file) files)
        in case insertGroups NewRangeTree (filesMap files) of
             Inl out \<Rightarrow> Err ErrRestoreInvalidRange
           | Inr rangeTree \<Rightarrow>
               let sortedRanges =
                     mergeSorted decodeTableID splitSizeBytes splitKeyCount (GetSortedRanges rangeTree)
               in if (of_nat writeCFFile :: uint64) = 0 then Panic DivideByZero
                  else if (of_nat (length sortedRanges) :: uint64) = 0 then Panic DivideByZero
                  else Ok (sortedRanges,
                    \<lparr>TotalFiles = int totalFiles,
                     TotalWriteCFFile = int writeCFFile,
                     TotalDefaultCFFile = int defaultCFFile,
                     TotalRegions = int writeCFFile,
                     RegionKeysAvg = sint (totalKvs div of_nat writeCFFile),
                     RegionBytesAvg = sint (totalBytes div of_nat writeCFFile),
                     MergedRegions = int (length sortedRanges),
                     MergedRegionKeysAvg = sint (totalKvs div of_nat (length sortedRanges)),
                     MergedRegionBytesAvg = sint (totalBytes div of_nat (length sortedRanges))\<rparr>))"


section \<open>Notions used to state the planner's properties\<close>

text \<open>
  \<open>groupsOf files m\<close>: the association list \<open>m\<close> holds, under each start key of \<open>files\<close>, the
  files with that start key in input order, and no key twice.
\<close>

definition groupsOf :: "File list \<Rightarrow> (bytes \<times> File list) list \<Rightarrow> bool" where
  "groupsOf files m \<longleftrightarrow>
     distinct (map fst m) \<and>
     (\<forall>k. map_of m k = (if k \<in> StartKey ` set files then Some (filter (\<lambda>f. StartKey f = k) files) else None))"

text \<open>The initial range of the files that start at \<open>k\<close>.\<close>

definition groupOf :: "File list \<Rightarrow> bytes \<Rightarrow> rtree_Range" where
  "groupOf files k = groupRange (k, filter (\<lambda>f. StartKey f = k) files)"

text \<open>Two initial ranges with different start keys overlap.\<close>

definition groupsCollide :: "File list \<Rightarrow> bool" where
  "groupsCollide files \<longleftrightarrow>
     (\<exists>f\<in>set files. \<exists>g\<in>set files. StartKey f \<noteq> StartKey g \<and>
        overlaps (groupOf files (StartKey f)) (groupOf files (StartKey g)))"

text \<open>
  The sums of a file list's \<open>TotalBytes\<close> and \<open>TotalKvs\<close> as numbers, without wrap-around, and
  the two budgets.
\<close>

definition filesBytes :: "File list \<Rightarrow> nat" where
  "filesBytes fs = sum_list (map (\<lambda>f. unat (TotalBytes f)) fs)"

definition filesKeys :: "File list \<Rightarrow> nat" where
  "filesKeys fs = sum_list (map (\<lambda>f. unat (TotalKvs f)) fs)"

definition fitsBudget :: "uint64 \<Rightarrow> uint64 \<Rightarrow> File list \<Rightarrow> bool" where
  "fitsBudget sz kc fs \<longleftrightarrow> filesBytes fs \<le> unat sz \<and> filesKeys fs \<le> unat kc"

text \<open>The bytes of the initial range that starts at \<open>k\<close>, as \<open>BytesAndKeys\<close> computes them.\<close>

definition groupBytes :: "File list \<Rightarrow> bytes \<Rightarrow> uint64" where
  "groupBytes files k = sum_list (map TotalBytes (filter (\<lambda>f. StartKey f = k) files))"

text \<open>Some range of the list overlaps the tree or an earlier range of the list.\<close>

fun collides :: "RangeTree \<Rightarrow> rtree_Range list \<Rightarrow> bool" where
  "collides tree [] = False"
| "collides tree (r # rs) = ((\<exists>x\<in>set tree. overlaps r x) \<or> collides (tree @ [r]) rs)"

subsection \<open>Sample inputs\<close>

text \<open>
  \<open>tablecodec.DecodeTableID\<close> of the TiDB library, for the examples: a key that starts with
  the table prefix \<open>t\<close> and has eight more bytes decodes to the big-endian number in these
  bytes with its sign bit flipped, read as a signed 64-bit number; any other key decodes to 0.
  \<open>tableKey\<close> builds a key of a table with an id below 256.
\<close>

definition DecodeTableID :: "bytes \<Rightarrow> int" where
  "DecodeTableID key =
     (case key of
        [] \<Rightarrow> 0
      | p # rest \<Rightarrow>
          if p = 0x74 \<and> length rest \<ge> 8
          then sint ((foldl (\<lambda>u b. u * 256 + ucast b) (0 :: uint64) (take 8 rest))
                      XOR 0x8000000000000000)
          else 0)"

definition tableKey :: "8 word \<Rightarrow> bytes \<Rightarrow> bytes" where
  "tableKey tableID rest = [0x74, 0x80, 0, 0, 0, 0, 0, 0, tableID] @ rest"

text \<open>A file of the write column family.\<close>

definition sampleFile :: "string \<Rightarrow> bytes \<Rightarrow> bytes \<Rightarrow> uint64 \<Rightarrow> uint64 \<Rightarrow> File" where
  "sampleFile name start end kvs nbytes =
     \<lparr>Name = name, StartKey = start, EndKey = end, Cf = ''write'', TotalKvs = kvs, TotalBytes = nbytes\<rparr>"

section \<open>Regions and the ingest error classifier\<close>

text \<open>
  The protobuf messages that \<open>isIngestRetryable\<close> reads. A pointer field that may be nil is
  an \<open>option\<close>; the getters of a nil message return the zero value.
\<close>

record metapb_Peer =
  PeerId :: uint64
  StoreId :: uint64

record metapb_Region =
  RegionId :: uint64
  RegionStartKey :: bytes
  RegionEndKey :: bytes
  RegionEpoch :: "uint64 \<times> uint64"
  Peers :: "metapb_Peer list"

record RegionInfo =
  Region :: metapb_Region
  Leader :: "metapb_Peer option"

record sst_Range =
  Start :: bytes
  End :: bytes

record SSTMeta =
  Uuid :: bytes
  MetaRegionId :: uint64
  MetaRegionEpoch :: "uint64 \<times> uint64"
  Range :: "sst_Range option"













section \<open>Writing row-change pairs\<close>

text \<open>\<open>kv.Pair\<close>, the pairs of a row-change batch, and \<open>sst.Pair\<close>, what a write stream carries.\<close>

record kv_Pair =
  Key :: bytes
  Val :: bytes
  IsDelete :: bool

datatype Pair_OP = Pair_Put | Pair_Delete

record sst_Pair =
  PairKey :: bytes
  PairValue :: bytes
  Op :: Pair_OP

text \<open>A request of a write stream: the header that binds the uuid, or a batch of pairs.\<close>

datatype WriteRequest =
    WriteRequest_Meta SSTMeta
  | WriteRequest_Batch (CommitTs: uint64) (Pairs: "sst_Pair list")

subsection \<open>\<open>writeRows\<close>\<close>

text \<open>
  \<open>sort.SliceStable\<close> with the comparison \<open>bytes.Compare(kvs[i].Key, kvs[j].Key) < 0\<close> orders
  the pairs by key and keeps pairs of equal keys in input order. There is one such
  arrangement of a list, and \<open>sort_key Key\<close> computes it.
\<close>

definition sortSliceStable :: "kv_Pair list \<Rightarrow> kv_Pair list" where
  "sortSliceStable kvs = sort_key Key kvs"

text \<open>
  The loop that drops duplicate keys: the last index is always kept, any other index is
  skipped when the next pair has the same key.
\<close>

fun removeDuplicates :: "kv_Pair list \<Rightarrow> kv_Pair list" where
  "removeDuplicates [] = []"
| "removeDuplicates [kv] = [kv]"
| "removeDuplicates (kv # next # rest) =
     (if Key kv = Key next then removeDuplicates (next # rest)
      else kv # removeDuplicates (next # rest))"

text \<open>
  What \<open>writeRows\<close> hands to \<open>writeAndIngestPairs\<close>: nothing for an empty input (it returns
  at once), otherwise \<open>newKvs\<close>.
\<close>

definition writeRows :: "kv_Pair list \<Rightarrow> kv_Pair list option" where
  "writeRows kvs =
     (if kvs = [] then None else Some (removeDuplicates (sortSliceStable kvs)))"

subsection \<open>\<open>writeToTiKV\<close>\<close>

definition toSstPair :: "kv_Pair \<Rightarrow> sst_Pair" where
  "toSstPair kv =
     \<lparr>PairKey = Key kv, PairValue = Val kv, Op = (if IsDelete kv then Pair_Delete else Pair_Put)\<rparr>"

text \<open>
  The loop over the pairs. \<open>pairs\<close> is the reused buffer of \<open>sst.Pair\<close>s, \<open>count\<close> the number
  of its entries that belong to the batch being filled, and \<open>firstLoop\<close> tells whether the
  buffer is still growing. The result is the list of the batches sent, in order; \<open>None\<close> is
  an index out of range at \<open>pairs[count]\<close>. The byte arena only holds copies of keys and
  values until their batch is sent and is left out.
\<close>

fun batchLoop ::
  "int \<Rightarrow> kv_Pair list \<Rightarrow> sst_Pair list \<Rightarrow> nat \<Rightarrow> bool \<Rightarrow> sst_Pair list list option" where
  "batchLoop BatchWriteKVPairs [] pairs count firstLoop =
     Some (if count > 0 then [take count pairs] else [])"
| "batchLoop BatchWriteKVPairs (kv # kvs) pairs count firstLoop =
     (if \<not> firstLoop \<and> \<not> count < length pairs then None
      else
        let pairs' = (if firstLoop then pairs @ [toSstPair kv] else pairs[count := toSstPair kv]);
            count' = count + 1
        in if int count' \<ge> BatchWriteKVPairs
           then map_option ((#) pairs') (batchLoop BatchWriteKVPairs kvs pairs' 0 False)
           else batchLoop BatchWriteKVPairs kvs pairs' count' firstLoop)"

text \<open>
  \<open>writeToTiKV\<close>, as the requests that each peer's stream receives, in order, on the path
  where no RPC fails. Outside the repository and passed in: \<open>encodeBytes\<close>
  (\<open>codec.EncodeBytes\<close>), the fresh \<open>uid\<close>, \<open>composeTS\<close> (\<open>oracle.ComposeTS\<close>, from two
  \<open>int64\<close> to a \<open>uint64\<close>) and \<open>now\<close>, the value of \<open>time.Now().Unix()\<close> at the one reading of
  the clock that the call makes, before it opens the streams; the product \<open>now * 1000\<close> is an
  \<open>int64\<close> and wraps. \<open>kvs[0]\<close> of an empty slice panics before anything is sent. A negative
  \<open>BatchWriteKVPairs\<close> panics in \<open>make\<close>, after the streams have been opened and have
  received their header but before any batch. (A capacity beyond what the allocator can give
  fails in \<open>make\<close> as well; where that limit lies is a matter of the machine and is not
  modelled.)
\<close>

definition writeToTiKV ::
  "(bytes \<Rightarrow> bytes) \<Rightarrow> bytes \<Rightarrow> (int64 \<Rightarrow> int64 \<Rightarrow> uint64) \<Rightarrow> int64 \<Rightarrow> int \<Rightarrow>
   kv_Pair list \<Rightarrow> RegionInfo \<Rightarrow> (uint64 \<times> WriteRequest list) list result" where
  "writeToTiKV encodeBytes uid composeTS now BatchWriteKVPairs kvs region =
     (if kvs = [] then Panic IndexOutOfRange
      else
        let firstKey = encodeBytes (Key (hd kvs));
            lastKey = encodeBytes (Key (last kvs));
            meta = \<lparr>Uuid = uid, MetaRegionId = RegionId (Region region),
                    MetaRegionEpoch = RegionEpoch (Region region),
                    Range = Some \<lparr>Start = firstKey, End = lastKey\<rparr>\<rparr>;
            commitTs = composeTS (now * 1000) 0
        in if BatchWriteKVPairs < 0 then Panic MakeSliceCapOutOfRange
           else case batchLoop BatchWriteKVPairs kvs [] 0 True of
             None \<Rightarrow> Panic IndexOutOfRange
           | Some batches \<Rightarrow>
               Ok (map (\<lambda>peer. (StoreId peer,
                          WriteRequest_Meta meta # map (WriteRequest_Batch commitTs) batches))
                       (Peers (Region region))))"

subsection \<open>\<open>doWriteAndIngest\<close>\<close>

text \<open>
  The first search loop: \<open>start\<close> is the index of the first pair whose key is not below
  \<open>startKey\<close>, and stays at its zero value when there is none.
\<close>

fun findStart :: "bytes \<Rightarrow> kv_Pair list \<Rightarrow> nat \<Rightarrow> nat" where
  "findStart startKey [] i = 0"
| "findStart startKey (kv # kvs) i =
     (if Key kv \<ge> startKey then i else findStart startKey kvs (i + 1))"

text \<open>
  The second search loop runs from the last index down: \<open>end\<close> is one more than the index
  of the last pair whose key is before \<open>endKey\<close>, and stays at its zero value when there is
  none. The argument \<open>n\<close> is the number of indices still to visit.
\<close>

fun findEnd :: "bytes \<Rightarrow> kv_Pair list \<Rightarrow> nat \<Rightarrow> nat" where
  "findEnd endKey kvs 0 = 0"
| "findEnd endKey kvs (Suc i) =
     (if beforeEnd (Key (kvs ! i)) endKey then Suc i else findEnd endKey kvs i)"

text \<open>The slice expression \<open>kvs[start:end]\<close>, which panics when the bounds are out of order.\<close>

definition sliceOf :: "'a list \<Rightarrow> nat \<Rightarrow> nat \<Rightarrow> 'a list option" where
  "sliceOf xs start end =
     (if start \<le> end \<and> end \<le> length xs then Some (take (end - start) (drop start xs)) else None)"

text \<open>
  The write phase of \<open>doWriteAndIngest\<close>: the region's keys are decoded (\<open>decodeBytes\<close> is
  \<open>codec.DecodeBytes\<close>, whose error the code drops), the two loops choose the bounds, and the
  slice goes to \<open>writeToTiKV\<close>. The ingest of the returned metas follows and sends no pairs.
\<close>

definition doWriteAndIngest ::
  "(bytes \<Rightarrow> bytes) \<Rightarrow> (bytes \<Rightarrow> bytes) \<Rightarrow> bytes \<Rightarrow> (int64 \<Rightarrow> int64 \<Rightarrow> uint64) \<Rightarrow>
   int64 \<Rightarrow> int \<Rightarrow> kv_Pair list \<Rightarrow> RegionInfo \<Rightarrow> (uint64 \<times> WriteRequest list) list result" where
  "doWriteAndIngest decodeBytes encodeBytes uid composeTS now BatchWriteKVPairs kvs region =
     (let startKey = (if RegionStartKey (Region region) \<noteq> []
                      then decodeBytes (RegionStartKey (Region region)) else []);
          endKey = (if RegionEndKey (Region region) \<noteq> []
                    then decodeBytes (RegionEndKey (Region region)) else []);
          start = findStart startKey kvs 0;
          end = findEnd endKey kvs (length kvs)
      in case sliceOf kvs start end of
           None \<Rightarrow> Panic SliceBoundsOutOfRange
         | Some part \<Rightarrow> writeToTiKV encodeBytes uid composeTS now BatchWriteKVPairs part region)"

text \<open>All pairs that a stream carries, batch after batch.\<close>

fun streamedPairs :: "WriteRequest list \<Rightarrow> sst_Pair list" where
  "streamedPairs [] = []"
| "streamedPairs (WriteRequest_Meta meta # reqs) = streamedPairs reqs"
| "streamedPairs (WriteRequest_Batch ts ps # reqs) = ps @ streamedPairs reqs"

section \<open>The order of the row-change files\<close>

definition logPrefix :: string where
  "logPrefix = ''cdclog''"

text \<open>
  \<open>filepath.Base\<close> of the Go library on slash-separated paths: the last element of the path,
  after trailing slashes are removed; \<open>.\<close> for the empty path and \<open>/\<close> for a path of slashes.
\<close>

definition filepath_Base :: "string \<Rightarrow> string" where
  "filepath_Base path =
     (if path = [] then ''.''
      else let stripped = rev (dropWhile (\<lambda>c. c = CHR ''/'') (rev path))
           in if stripped = [] then ''/''
              else rev (takeWhile (\<lambda>c. c \<noteq> CHR ''/'') (rev stripped)))"

text \<open>
  The comparison that \<open>collectRowChangeFiles\<close> gives to \<open>sort.Slice\<close>, on the elements at
  the indices \<open>i\<close> and \<open>j\<close>.
\<close>

definition rowChangeLess :: "string \<Rightarrow> string \<Rightarrow> bool" where
  "rowChangeLess fi fj = (if filepath_Base fj = logPrefix then True else fi < fj)"

text \<open>
  \<open>sort.Slice\<close> belongs to the Go library. On a slice of at most six elements every release
  of it runs the plain insertion sort: for \<open>i\<close> from 1 upwards, the element at \<open>i\<close> is swapped
  to the left as long as \<open>less\<close> puts it before its left neighbour. \<open>insertLeft\<close> is the inner
  loop on the reversed prefix, and longer slices are outside this model.
\<close>

fun insertLeft :: "('a \<Rightarrow> 'a \<Rightarrow> bool) \<Rightarrow> 'a \<Rightarrow> 'a list \<Rightarrow> 'a list" where
  "insertLeft lessFn x [] = [x]"
| "insertLeft lessFn x (y # leftPart) =
     (if lessFn x y then y # insertLeft lessFn x leftPart else x # y # leftPart)"

definition insertionSort :: "('a \<Rightarrow> 'a \<Rightarrow> bool) \<Rightarrow> 'a list \<Rightarrow> 'a list" where
  "insertionSort lessFn xs = rev (foldl (\<lambda>leftPart x. insertLeft lessFn x leftPart) [] xs)"

definition sort_Slice :: "('a \<Rightarrow> 'a \<Rightarrow> bool) \<Rightarrow> 'a list \<Rightarrow> 'a list option" where
  "sort_Slice lessFn xs = (if length xs \<le> 6 then Some (insertionSort lessFn xs) else None)"

text \<open>
  The last loop of \<open>collectRowChangeFiles\<close> for one table: the files collected by the walk,
  in walk order, are sorted in place.
\<close>

definition sortRowChangeFiles :: "string list \<Rightarrow> string list option" where
  "sortRowChangeFiles files = sort_Slice rowChangeLess files"

section \<open>Files of a raw range\<close>

record RawRange =
  RawStartKey :: bytes
  RawEndKey :: bytes
  RawCf :: string

text \<open>The fields of \<open>backup.BackupMeta\<close> that \<open>GetFilesInRawRange\<close> reads.\<close>

record BackupMeta =
  IsRawKv :: bool
  RawRanges :: "RawRange list"
  BackupFiles :: "File list"

definition bytes_Compare :: "bytes \<Rightarrow> bytes \<Rightarrow> int" where
  "bytes_Compare a b = (if a < b then - 1 else if a = b then 0 else 1)"

text \<open>
  Modelled from the spec: \<open>utils.CompareEndKey\<close> is not among the sources. It compares two
  exclusive interval ends; by the spec an empty end key stands for plus infinity, so it is
  above every other key and equal to itself.
\<close>

definition CompareEndKey :: "bytes \<Rightarrow> bytes \<Rightarrow> int" where
  "CompareEndKey a b =
     (if a = [] then (if b = [] then 0 else 1)
      else if b = [] then - 1
      else bytes_Compare a b)"

datatype raw_error = NotRawKvMode | NoBackupData

text \<open>The test of the inner loop: the file is neither before nor after the range.\<close>

definition fileInRange :: "bytes \<Rightarrow> bytes \<Rightarrow> string \<Rightarrow> File \<Rightarrow> bool" where
  "fileInRange startKey endKey cf file =
     (if Cf file \<noteq> cf then False
      else if EndKey file \<noteq> [] \<and> bytes_Compare (EndKey file) startKey < 0 then False
      else if endKey \<noteq> [] \<and> bytes_Compare endKey (StartKey file) \<le> 0 then False
      else True)"

text \<open>
  The loop over the raw ranges. The two messages of \<open>errors.New\<close> are the two values of
  \<open>raw_error\<close>.
\<close>

fun rawRangeLoop ::
  "File list \<Rightarrow> bytes \<Rightarrow> bytes \<Rightarrow> string \<Rightarrow> RawRange list \<Rightarrow> raw_error + File list" where
  "rawRangeLoop files startKey endKey cf [] = Inl NoBackupData"
| "rawRangeLoop files startKey endKey cf (rawRange # rest) =
     (if RawCf rawRange \<noteq> cf then rawRangeLoop files startKey endKey cf rest
      else if (RawEndKey rawRange \<noteq> [] \<and> bytes_Compare startKey (RawEndKey rawRange) \<ge> 0) \<or>
              (endKey \<noteq> [] \<and> bytes_Compare (RawStartKey rawRange) endKey \<ge> 0)
      then rawRangeLoop files startKey endKey cf rest
      else if bytes_Compare startKey (RawStartKey rawRange) < 0 \<or>
              CompareEndKey endKey (RawEndKey rawRange) > 0
      then Inl NoBackupData
      else Inr (filter (fileInRange startKey endKey cf) files))"

definition GetFilesInRawRange ::
  "BackupMeta \<Rightarrow> bytes \<Rightarrow> bytes \<Rightarrow> string \<Rightarrow> raw_error + File list" where
  "GetFilesInRawRange backupMeta startKey endKey cf =
     (if \<not> IsRawKv backupMeta then Inl NotRawKvMode
      else rawRangeLoop (BackupFiles backupMeta) startKey endKey cf (RawRanges backupMeta))"

subsection \<open>Notions used to state the lookup's properties\<close>

text \<open>A raw range lies wholly outside the query range, or contains all of it.\<close>

definition rangeOutside :: "bytes \<Rightarrow> bytes \<Rightarrow> RawRange \<Rightarrow> bool" where
  "rangeOutside startKey endKey rawRange =
     ((RawEndKey rawRange \<noteq> [] \<and> RawEndKey rawRange \<le> startKey) \<or>
      (endKey \<noteq> [] \<and> endKey \<le> RawStartKey rawRange))"

definition rangeContains :: "RawRange \<Rightarrow> bytes \<Rightarrow> bytes \<Rightarrow> bool" where
  "rangeContains rawRange startKey endKey =
     (RawStartKey rawRange \<le> startKey \<and>
      (RawEndKey rawRange = [] \<or> (endKey \<noteq> [] \<and> endKey \<le> RawEndKey rawRange)))"

text \<open>
  The first raw range of the column family that is not wholly outside the query range, in
  the order of the manifest.
\<close>

definition firstTouching :: "RawRange list \<Rightarrow> bytes \<Rightarrow> bytes \<Rightarrow> string \<Rightarrow> RawRange option" where
  "firstTouching rawRanges startKey endKey cf =
     find (\<lambda>rawRange. RawCf rawRange = cf \<and> \<not> rangeOutside startKey endKey rawRange) rawRanges"

section \<open>Notions used to state the properties of the write path\<close>

text \<open>
  The largest batch that \<open>batchLoop\<close> sends: \<open>BatchWriteKVPairs\<close>, or one pair when that
  setting is below one.
\<close>

definition batchCap :: "int \<Rightarrow> nat" where
  "batchCap B = (if B \<le> 1 then 1 else nat B)"

text \<open>The key of the pair lies in the interval from \<open>startKey\<close> to \<open>endKey\<close>.\<close>

definition inRegionKeys :: "bytes \<Rightarrow> bytes \<Rightarrow> kv_Pair \<Rightarrow> bool" where
  "inRegionKeys startKey endKey kv = (startKey \<le> Key kv \<and> beforeEnd (Key kv) endKey)"





text \<open>
  \<open>oracle.ComposeTS\<close> of the TiDB library: the physical time shifted left by 18 bits plus the
  logical time, computed in \<open>int64\<close> and converted to \<open>uint64\<close>.
\<close>

definition ComposeTS :: "int64 \<Rightarrow> int64 \<Rightarrow> uint64" where
  "ComposeTS physical logical = push_bit 18 physical + logical"

subsection \<open>Sample inputs\<close>

text \<open>The examples take the codec of keys to be the identity.\<close>

definition sampleRegion :: "bytes \<Rightarrow> bytes \<Rightarrow> metapb_Peer list \<Rightarrow> RegionInfo" where
  "sampleRegion start end peers =
     \<lparr>Region = \<lparr>RegionId = 1, RegionStartKey = start, RegionEndKey = end, RegionEpoch = (1, 1),
                 Peers = peers\<rparr>,
      Leader = (case peers of [] \<Rightarrow> None | p # _ \<Rightarrow> Some p)\<rparr>"

definition samplePair :: "bytes \<Rightarrow> bytes \<Rightarrow> kv_Pair" where
  "samplePair k v = \<lparr>Key = k, Val = v, IsDelete = False\<rparr>"


section \<open>Facts about the planner\<close>

lemma map_of_addFile:
  "map_of (addFile file m) =
     (map_of m)(StartKey file \<mapsto> (case map_of m (StartKey file) of None \<Rightarrow> [file] | Some fs \<Rightarrow> fs @ [file]))"
  by (induction m) (auto simp: fun_eq_iff)

lemma map_fst_addFile:
  "map fst (addFile file m) =
     (if StartKey file \<in> set (map fst m) then map fst m else map fst m @ [StartKey file])"
  by (induction m) (force simp: image_iff)+

lemma distinct_addFile: "distinct (map fst m) \<Longrightarrow> distinct (map fst (addFile file m))"
  by (simp add: map_fst_addFile)

lemma groupsOf_addFile:
  assumes "groupsOf files m"
  shows "groupsOf (files @ [file]) (addFile file m)"
proof -
  have d: "distinct (map fst (addFile file m))"
    using assms by (simp add: groupsOf_def distinct_addFile)
  have m: "map_of m k = (if k \<in> StartKey ` set files then Some (filter (\<lambda>f. StartKey f = k) files) else None)" for k
    using assms by (simp add: groupsOf_def)
  have "map_of (addFile file m) k =
      (if k \<in> StartKey ` set (files @ [file]) then Some (filter (\<lambda>f. StartKey f = k) (files @ [file])) else None)" for k
    by (cases "k = StartKey file") (force simp: map_of_addFile m filter_empty_conv image_iff)+
  with d show ?thesis unfolding groupsOf_def by blast
qed

lemma groupsOf_foldl:
  "groupsOf seen m \<Longrightarrow> groupsOf (seen @ files) (foldl (\<lambda>m file. addFile file m) m files)"
proof (induction files arbitrary: seen m)
  case Nil
  then show ?case by simp
next
  case (Cons a files)
  from Cons.IH[OF groupsOf_addFile[OF Cons.prems, of a]] show ?case by simp
qed

lemma groupsOf_filesMap: "groupsOf files (filesMap files)"
  using groupsOf_foldl[of "[]" "[]" files] by (simp add: filesMap_def groupsOf_def)

lemma distinct_filesMap: "distinct (map fst (filesMap files))"
  using groupsOf_filesMap[of files] by (simp add: groupsOf_def)

lemma filesMap_group:
  assumes "(k, fs) \<in> set (filesMap files)"
  shows "fs = filter (\<lambda>f. StartKey f = k) files \<and> k \<in> StartKey ` set files"
proof -
  have g: "groupsOf files (filesMap files)" by (rule groupsOf_filesMap)
  then have "map_of (filesMap files) k = Some fs"
    using assms map_of_is_SomeI[of "filesMap files" k fs] by (simp add: groupsOf_def)
  moreover have "map_of (filesMap files) k =
      (if k \<in> StartKey ` set files then Some (filter (\<lambda>f. StartKey f = k) files) else None)"
    using g by (simp add: groupsOf_def)
  ultimately show ?thesis by (auto split: if_splits)
qed

lemma filesMap_keys: "fst ` set (filesMap files) = StartKey ` set files"
proof -
  have "dom (map_of (filesMap files)) = StartKey ` set files"
    using groupsOf_filesMap[of files] by (auto simp: groupsOf_def dom_def)
  then show ?thesis by (simp add: dom_map_of_conv_image_fst)
qed

lemma filesMap_groupOf:
  assumes "g \<in> set (filesMap files)"
  shows "groupRange g = groupOf files (fst g)" and "fst g \<in> StartKey ` set files"
  using filesMap_group[of "fst g" "snd g" files] assms by (simp_all add: groupOf_def groupRange_def)

lemma groupOf_props:
  assumes "k \<in> StartKey ` set files"
  shows "RangeStartKey (groupOf files k) = k"
    and "Files (groupOf files k) = filter (\<lambda>f. StartKey f = k) files"
proof -
  let ?fs = "filter (\<lambda>f. StartKey f = k) files"
  have "?fs \<noteq> []" using assms by (force simp: filter_empty_conv)
  then have "hd ?fs \<in> set ?fs" by (rule hd_in_set)
  then have "StartKey (hd ?fs) = k" by simp
  then show "RangeStartKey (groupOf files k) = k" by (simp add: groupOf_def groupRange_def)
  show "Files (groupOf files k) = ?fs" by (simp add: groupOf_def groupRange_def)
qed

lemma overlaps_sym: "overlaps a b \<longleftrightarrow> overlaps b a"
  by (auto simp: overlaps_def)

lemma insertGroups_Inl:
  "(\<exists>out. insertGroups tree gs = Inl out) \<longleftrightarrow> collides tree (map groupRange gs)"
proof (induction gs arbitrary: tree)
  case Nil
  then show ?case by simp
next
  case (Cons g gs)
  show ?case
  proof (cases "find (overlaps (groupRange g)) tree")
    case None
    then have "\<not> (\<exists>x\<in>set tree. overlaps (groupRange g) x)"
      by (simp add: find_None_iff)
    with None Cons.IH[of "tree @ [groupRange g]"] show ?thesis
      by (simp add: InsertRange_def)
  next
    case (Some out)
    then have "\<exists>x\<in>set tree. overlaps (groupRange g) x"
      by (auto simp: find_Some_iff)
    with Some show ?thesis by (simp add: InsertRange_def)
  qed
qed

lemma insertGroups_Inr:
  "insertGroups tree gs = Inr t \<Longrightarrow> t = tree @ map groupRange gs"
proof (induction gs arbitrary: tree)
  case Nil
  then show ?case by simp
next
  case (Cons g gs)
  show ?case
  proof (cases "find (overlaps (groupRange g)) tree")
    case None
    with Cons.prems have "insertGroups (tree @ [groupRange g]) gs = Inr t"
      by (simp add: InsertRange_def)
    from Cons.IH[OF this] show ?thesis by simp
  next
    case (Some out)
    with Cons.prems show ?thesis by (simp add: InsertRange_def)
  qed
qed

lemma collides_iff:
  fixes gs :: "'a list" and rg :: "'a \<Rightarrow> rtree_Range"
  assumes "distinct gs"
  shows "collides tree (map rg gs) \<longleftrightarrow>
     (\<exists>g\<in>set gs. \<exists>x\<in>set tree. overlaps (rg g) x) \<or>
     (\<exists>g\<in>set gs. \<exists>h\<in>set gs. g \<noteq> h \<and> overlaps (rg g) (rg h))"
  using assms
proof (induction gs arbitrary: tree)
  case Nil
  then show ?case by simp
next
  case (Cons g gs)
  have d: "distinct gs" and n: "g \<notin> set gs" using Cons.prems by simp_all
  let ?r = "rg g"
  let ?T = "\<lambda>t. \<exists>h\<in>set gs. \<exists>x\<in>set t. overlaps (rg h) x"
  let ?G = "\<exists>h\<in>set gs. overlaps ?r (rg h)"
  let ?P = "\<exists>a\<in>set gs. \<exists>b\<in>set gs. a \<noteq> b \<and> overlaps (rg a) (rg b)"
  have a: "?T (tree @ [?r]) \<longleftrightarrow> ?T tree \<or> ?G"
    using overlaps_sym[of ?r] by auto
  have b: "(\<exists>a\<in>set (g # gs). \<exists>b\<in>set (g # gs). a \<noteq> b \<and> overlaps (rg a) (rg b)) \<longleftrightarrow> ?G \<or> ?P"
    (is "?L \<longleftrightarrow> _")
  proof
    assume ?L
    then obtain a b where ab: "a \<in> set (g # gs)" "b \<in> set (g # gs)" "a \<noteq> b" "overlaps (rg a) (rg b)"
      by blast
    show "?G \<or> ?P"
    proof (cases "a = g")
      case True
      with ab have "b \<in> set gs" "overlaps ?r (rg b)" by auto
      then show ?thesis by blast
    next
      case False
      then have a': "a \<in> set gs" using ab(1) by simp
      show ?thesis
      proof (cases "b = g")
        case True
        with ab(4) have "overlaps ?r (rg a)" by (simp add: overlaps_sym)
        with a' show ?thesis by blast
      next
        case False
        then have "b \<in> set gs" using ab(2) by simp
        with a' ab(3,4) show ?thesis by blast
      qed
    qed
  next
    assume "?G \<or> ?P"
    then show ?L
    proof
      assume ?G
      then obtain h where h: "h \<in> set gs" "overlaps ?r (rg h)" by blast
      with n have "g \<noteq> h" by auto
      with h have "g \<in> set (g # gs) \<and> h \<in> set (g # gs) \<and> g \<noteq> h \<and> overlaps (rg g) (rg h)" by simp
      then show ?L by blast
    next
      assume ?P
      then obtain a b where "a \<in> set gs" "b \<in> set gs" "a \<noteq> b" "overlaps (rg a) (rg b)" by blast
      then have "a \<in> set (g # gs) \<and> b \<in> set (g # gs) \<and> a \<noteq> b \<and> overlaps (rg a) (rg b)" by simp
      then show ?L by blast
    qed
  qed
  have c: "(\<exists>a\<in>set (g # gs). \<exists>x\<in>set tree. overlaps (rg a) x) \<longleftrightarrow>
      (\<exists>x\<in>set tree. overlaps ?r x) \<or> ?T tree"
    by simp
  have "collides tree (map rg (g # gs)) \<longleftrightarrow> (\<exists>x\<in>set tree. overlaps ?r x) \<or> ?T (tree @ [?r]) \<or> ?P"
    using Cons.IH[OF d, of "tree @ [?r]"] by simp
  also have "\<dots> \<longleftrightarrow> (\<exists>x\<in>set tree. overlaps ?r x) \<or> ?T tree \<or> ?G \<or> ?P"
    unfolding a by blast
  finally show ?case unfolding b c by blast
qed

lemma filesMap_collides:
  "collides [] (map groupRange (filesMap files)) \<longleftrightarrow> groupsCollide files"
proof -
  have d: "distinct (filesMap files)"
    using distinct_filesMap[of files] by (rule distinct_map[THEN iffD1, THEN conjunct1])
  have "(\<exists>g\<in>set (filesMap files). \<exists>h\<in>set (filesMap files). g \<noteq> h \<and> overlaps (groupRange g) (groupRange h))
      \<longleftrightarrow> groupsCollide files" (is "?L \<longleftrightarrow> ?R")
  proof
    assume ?L
    then obtain g h where gh: "g \<in> set (filesMap files)" "h \<in> set (filesMap files)" "g \<noteq> h"
      "overlaps (groupRange g) (groupRange h)" by blast
    have "inj_on fst (set (filesMap files))"
      using distinct_filesMap[of files] by (simp add: distinct_map)
    then have "fst g \<noteq> fst h"
      using gh(1,2,3) by (auto dest: inj_onD)
    moreover obtain f f' where "f \<in> set files" "StartKey f = fst g" "f' \<in> set files" "StartKey f' = fst h"
      using filesMap_groupOf(2)[OF gh(1)] filesMap_groupOf(2)[OF gh(2)] by auto
    ultimately have "f \<in> set files \<and> f' \<in> set files \<and> StartKey f \<noteq> StartKey f' \<and>
        overlaps (groupOf files (StartKey f)) (groupOf files (StartKey f'))"
      using gh(4) filesMap_groupOf(1)[OF gh(1)] filesMap_groupOf(1)[OF gh(2)] by simp
    then show ?R
      unfolding groupsCollide_def by blast
  next
    assume ?R
    then obtain f f' where ff: "f \<in> set files" "f' \<in> set files" "StartKey f \<noteq> StartKey f'"
      "overlaps (groupOf files (StartKey f)) (groupOf files (StartKey f'))"
      unfolding groupsCollide_def by blast
    from ff(1) have "StartKey f \<in> fst ` set (filesMap files)" by (simp add: filesMap_keys)
    then obtain g where g: "g \<in> set (filesMap files)" "fst g = StartKey f" by auto
    from ff(2) have "StartKey f' \<in> fst ` set (filesMap files)" by (simp add: filesMap_keys)
    then obtain h where h: "h \<in> set (filesMap files)" "fst h = StartKey f'" by auto
    have "g \<noteq> h" using g(2) h(2) ff(3) by auto
    moreover have "overlaps (groupRange g) (groupRange h)"
      using g(2) h(2) ff(4) filesMap_groupOf(1)[OF g(1)] filesMap_groupOf(1)[OF h(1)] by simp
    ultimately show ?L using g(1) h(1) by blast
  qed
  then show ?thesis using collides_iff[OF d, of "[]"] by simp
qed

lemma insertGroups_filesMap_Inl:
  assumes "groupsCollide files"
  shows "\<exists>out. insertGroups NewRangeTree (filesMap files) = Inl out"
  using assms insertGroups_Inl[of NewRangeTree "filesMap files"] filesMap_collides[of files]
  by (simp add: NewRangeTree_def)

lemma insertGroups_filesMap_Inr:
  assumes "\<not> groupsCollide files"
  shows "insertGroups NewRangeTree (filesMap files) = Inr (map groupRange (filesMap files))"
proof (cases "insertGroups NewRangeTree (filesMap files)")
  case (Inl out)
  then have "groupsCollide files"
    using insertGroups_Inl[of NewRangeTree "filesMap files"] filesMap_collides[of files]
    by (simp add: NewRangeTree_def)
  with assms show ?thesis by simp
next
  case (Inr t)
  with insertGroups_Inr[OF Inr] show ?thesis by (simp add: NewRangeTree_def)
qed

lemma MergeFileRanges_collide:
  assumes "groupsCollide files"
  shows "MergeFileRanges dec files sz kc = Err ErrRestoreInvalidRange"
proof -
  have "files \<noteq> []" using assms by (auto simp: groupsCollide_def)
  moreover obtain out where "insertGroups NewRangeTree (filesMap files) = Inl out"
    using insertGroups_filesMap_Inl[OF assms] by blast
  ultimately show ?thesis by (simp add: MergeFileRanges_def Let_def)
qed

lemma MergeFileRanges_apart:
  assumes "\<not> groupsCollide files" and "files \<noteq> []"
  shows "MergeFileRanges dec files sz kc =
     (let sortedRanges = mergeSorted dec sz kc (GetSortedRanges (map groupRange (filesMap files)));
          writeCFFile = length (filter isWriteCF files)
      in if (of_nat writeCFFile :: uint64) = 0 then Panic DivideByZero
         else if (of_nat (length sortedRanges) :: uint64) = 0 then Panic DivideByZero
         else Ok (sortedRanges,
           \<lparr>TotalFiles = int (length files),
            TotalWriteCFFile = int writeCFFile,
            TotalDefaultCFFile = int (length (filter (\<lambda>file. \<not> isWriteCF file) files)),
            TotalRegions = int writeCFFile,
            RegionKeysAvg = sint (sum_list (map TotalKvs files) div of_nat writeCFFile),
            RegionBytesAvg = sint (sum_list (map TotalBytes files) div of_nat writeCFFile),
            MergedRegions = int (length sortedRanges),
            MergedRegionKeysAvg = sint (sum_list (map TotalKvs files) div of_nat (length sortedRanges)),
            MergedRegionBytesAvg = sint (sum_list (map TotalBytes files) div of_nat (length sortedRanges))\<rparr>))"
  using assms(2) insertGroups_filesMap_Inr[OF assms(1)]
  by (simp add: MergeFileRanges_def Let_def)


lemma sortedGroups:
  assumes "r \<in> set (GetSortedRanges (map groupRange (filesMap files)))"
  shows "\<exists>k\<in>StartKey ` set files. r = groupOf files k"
proof -
  from assms obtain g where g: "g \<in> set (filesMap files)" "r = groupRange g"
    by (auto simp: GetSortedRanges_def)
  with filesMap_groupOf[OF g(1)] show ?thesis by auto
qed

lemma MergeFileRanges_Ok:
  assumes "MergeFileRanges dec files sz kc = Ok (rs, st)"
  shows "rs = mergeSorted dec sz kc (GetSortedRanges (map groupRange (filesMap files)))"
    and "files \<noteq> [] \<Longrightarrow> filter isWriteCF files \<noteq> []"
proof -
  have apart: "\<not> groupsCollide files"
    using assms MergeFileRanges_collide[of files dec sz kc] by auto
  show "rs = mergeSorted dec sz kc (GetSortedRanges (map groupRange (filesMap files)))"
  proof (cases "files = []")
    case True
    with assms show ?thesis
      by (simp add: MergeFileRanges_def filesMap_def GetSortedRanges_def)
  next
    case False
    from assms show ?thesis
      unfolding MergeFileRanges_apart[OF apart False] Let_def
      by (simp split: if_splits)
  qed
  show "filter isWriteCF files \<noteq> []" if "files \<noteq> []"
  proof
    assume "filter isWriteCF files = []"
    with assms show False
      unfolding MergeFileRanges_apart[OF apart that] Let_def by simp
  qed
qed

lemma MergeFileRanges_noWriteCF:
  assumes "files \<noteq> []" and "\<forall>f\<in>set files. \<not> isWriteCF f"
  shows "MergeFileRanges dec files sz kc =
     (if groupsCollide files then Err ErrRestoreInvalidRange else Panic DivideByZero)"
proof -
  have "filter isWriteCF files = []" using assms(2) by (simp add: filter_empty_conv)
  then show ?thesis
    using MergeFileRanges_collide[of files dec sz kc] MergeFileRanges_apart[OF _ assms(1), of dec sz kc]
    by (simp add: Let_def)
qed

lemma needMerge_cases:
  assumes "needMerge dec sz kc left right"
  shows "fst (BytesAndKeys right) = 0 \<or>
     (fst (BytesAndKeys left) + fst (BytesAndKeys right) \<le> sz \<and>
      snd (BytesAndKeys left) + snd (BytesAndKeys right) \<le> kc \<and>
      dec (RangeStartKey left) = dec (RangeStartKey right))"
  using assms by (auto simp: needMerge_def Let_def split: prod.splits if_splits)

lemma mergeLoop_tables:
  assumes "\<forall>r\<in>set rest. (\<forall>f\<in>set (Files r). StartKey f = RangeStartKey r) \<and>
             fst (BytesAndKeys r) = gb (RangeStartKey r)"
    and "\<forall>f\<in>set (Files left). gb (StartKey f) \<noteq> 0 \<longrightarrow> dec (StartKey f) = dec (RangeStartKey left)"
    and "r \<in> set (mergeLoop dec sz kc left rest)"
    and "f \<in> set (Files r)" and "gb (StartKey f) \<noteq> 0"
  shows "dec (StartKey f) = dec (RangeStartKey r)"
  using assms
proof (induction rest arbitrary: left)
  case Nil
  then show ?case by simp
next
  case (Cons right rest)
  have rest: "\<forall>r\<in>set rest. (\<forall>f\<in>set (Files r). StartKey f = RangeStartKey r) \<and>
             fst (BytesAndKeys r) = gb (RangeStartKey r)"
    using Cons.prems(1) by simp
  have right: "\<forall>f\<in>set (Files right). StartKey f = RangeStartKey right"
    "fst (BytesAndKeys right) = gb (RangeStartKey right)"
    using Cons.prems(1) by simp_all
  show ?case
  proof (cases "needMerge dec sz kc left right")
    case True
    let ?l = "left\<lparr>RangeEndKey := RangeEndKey right, Files := Files left @ Files right\<rparr>"
    have "\<forall>f\<in>set (Files ?l). gb (StartKey f) \<noteq> 0 \<longrightarrow> dec (StartKey f) = dec (RangeStartKey ?l)"
    proof
      fix f' assume f': "f' \<in> set (Files ?l)"
      show "gb (StartKey f') \<noteq> 0 \<longrightarrow> dec (StartKey f') = dec (RangeStartKey ?l)"
      proof (cases "f' \<in> set (Files left)")
        case True
        with Cons.prems(2) show ?thesis by simp
      next
        case False
        with f' have "f' \<in> set (Files right)" by simp
        with right have "StartKey f' = RangeStartKey right" by simp
        with right(2) needMerge_cases[OF True] show ?thesis by auto
      qed
    qed
    moreover have "r \<in> set (mergeLoop dec sz kc ?l rest)"
      using Cons.prems(3) True by simp
    ultimately show ?thesis
      using Cons.IH[of ?l] rest Cons.prems(4,5) by blast
  next
    case False
    with Cons.prems(3) have "r = left \<or> r \<in> set (mergeLoop dec sz kc right rest)" by simp
    then show ?thesis
    proof
      assume "r = left"
      with Cons.prems(2,4,5) show ?thesis by simp
    next
      assume "r \<in> set (mergeLoop dec sz kc right rest)"
      moreover have "\<forall>f\<in>set (Files right). gb (StartKey f) \<noteq> 0 \<longrightarrow>
          dec (StartKey f) = dec (RangeStartKey right)"
        using right(1) by simp
      ultimately show ?thesis
        using Cons.IH[of right] rest Cons.prems(4,5) by blast
    qed
  qed
qed

lemma groupOf_tables:
  assumes "k \<in> StartKey ` set files"
  shows "(\<forall>f\<in>set (Files (groupOf files k)). StartKey f = RangeStartKey (groupOf files k)) \<and>
         fst (BytesAndKeys (groupOf files k)) = groupBytes files (RangeStartKey (groupOf files k))"
  using groupOf_props[OF assms] by (simp add: BytesAndKeys_def groupBytes_def)

lemma MergeFileRanges_tables:
  assumes "MergeFileRanges dec files sz kc = Ok (rs, st)"
    and "r \<in> set rs" and "f \<in> set (Files r)" and "groupBytes files (StartKey f) \<noteq> 0"
  shows "dec (StartKey f) = dec (RangeStartKey r)"
proof -
  let ?sorted = "GetSortedRanges (map groupRange (filesMap files))"
  have rs: "rs = mergeSorted dec sz kc ?sorted" by (rule MergeFileRanges_Ok(1)[OF assms(1)])
  have all: "\<forall>r\<in>set ?sorted. (\<forall>f\<in>set (Files r). StartKey f = RangeStartKey r) \<and>
             fst (BytesAndKeys r) = groupBytes files (RangeStartKey r)"
    using sortedGroups[of _ files] groupOf_tables[of _ files] by blast
  show ?thesis
  proof (cases ?sorted)
    case Nil
    with rs assms(2) show ?thesis by simp
  next
    case (Cons first rest)
    with rs assms(2) have "r \<in> set (mergeLoop dec sz kc first rest)" by simp
    moreover from all Cons have "\<forall>r\<in>set rest. (\<forall>f\<in>set (Files r). StartKey f = RangeStartKey r) \<and>
             fst (BytesAndKeys r) = groupBytes files (RangeStartKey r)" by simp
    moreover from all Cons have "\<forall>f\<in>set (Files first). groupBytes files (StartKey f) \<noteq> 0 \<longrightarrow>
        dec (StartKey f) = dec (RangeStartKey first)" by simp
    ultimately show ?thesis
      using mergeLoop_tables[of rest "groupBytes files" first dec r sz kc f] assms(3,4) by blast
  qed
qed

lemma unat_sum_list:
  fixes ws :: "uint64 list"
  assumes "sum_list (map unat ws) < 2 ^ 64"
  shows "unat (sum_list ws) = sum_list (map unat ws)"
  using assms
proof (induction ws)
  case Nil
  then show ?case by simp
next
  case (Cons w ws)
  then have ih: "unat (sum_list ws) = sum_list (map unat ws)" by simp
  have "unat w + unat (sum_list ws) < 2 ^ LENGTH(64)"
    using Cons.prems ih by simp
  then have "unat (w + sum_list ws) = unat w + unat (sum_list ws)"
    by (simp only: unat_add_lem)
  with ih show ?case by simp
qed

lemma BytesAndKeys_unat:
  assumes "filesBytes (Files r) < 2 ^ 64" and "filesKeys (Files r) < 2 ^ 64"
  shows "unat (fst (BytesAndKeys r)) = filesBytes (Files r)"
    and "unat (snd (BytesAndKeys r)) = filesKeys (Files r)"
  using assms unat_sum_list[of "map TotalBytes (Files r)"] unat_sum_list[of "map TotalKvs (Files r)"]
  by (simp_all add: BytesAndKeys_def filesBytes_def filesKeys_def comp_def)

lemma fitsBudget_merge:
  assumes sz: "unat sz < 2 ^ 63" and kc: "unat kc < 2 ^ 63"
    and l: "fitsBudget sz kc (Files left)" and r: "fitsBudget sz kc (Files right)"
    and z: "filesBytes (Files right) = 0 \<longrightarrow> filesKeys (Files right) = 0"
    and m: "needMerge dec sz kc left right"
  shows "fitsBudget sz kc (Files left @ Files right)"
proof -
  have small: "filesBytes (Files left) < 2 ^ 63" "filesKeys (Files left) < 2 ^ 63"
    "filesBytes (Files right) < 2 ^ 63" "filesKeys (Files right) < 2 ^ 63"
    using sz kc l r by (simp_all add: fitsBudget_def)
  then have lt: "filesBytes (Files left) < 2 ^ 64" "filesKeys (Files left) < 2 ^ 64"
    "filesBytes (Files right) < 2 ^ 64" "filesKeys (Files right) < 2 ^ 64"
    by simp_all
  note u = BytesAndKeys_unat[OF lt(1,2)] BytesAndKeys_unat[OF lt(3,4)]
  have app: "filesBytes (Files left @ Files right) = filesBytes (Files left) + filesBytes (Files right)"
    "filesKeys (Files left @ Files right) = filesKeys (Files left) + filesKeys (Files right)"
    by (simp_all add: filesBytes_def filesKeys_def)
  from needMerge_cases[OF m] show ?thesis
  proof
    assume "fst (BytesAndKeys right) = 0"
    then have "filesBytes (Files right) = 0" using u(3) by simp
    with z l show ?thesis by (simp add: app fitsBudget_def)
  next
    assume c: "fst (BytesAndKeys left) + fst (BytesAndKeys right) \<le> sz \<and>
      snd (BytesAndKeys left) + snd (BytesAndKeys right) \<le> kc \<and>
      dec (RangeStartKey left) = dec (RangeStartKey right)"
    have "unat (fst (BytesAndKeys left)) + unat (fst (BytesAndKeys right)) < 2 ^ LENGTH(64)"
      using small u by simp
    then have "unat (fst (BytesAndKeys left) + fst (BytesAndKeys right)) =
        unat (fst (BytesAndKeys left)) + unat (fst (BytesAndKeys right))"
      by (rule unat_add_lem[THEN iffD1])
    then have b: "unat (fst (BytesAndKeys left) + fst (BytesAndKeys right)) =
        filesBytes (Files left) + filesBytes (Files right)"
      using u by simp
    have "unat (snd (BytesAndKeys left)) + unat (snd (BytesAndKeys right)) < 2 ^ LENGTH(64)"
      using small u by simp
    then have "unat (snd (BytesAndKeys left) + snd (BytesAndKeys right)) =
        unat (snd (BytesAndKeys left)) + unat (snd (BytesAndKeys right))"
      by (rule unat_add_lem[THEN iffD1])
    then have k: "unat (snd (BytesAndKeys left) + snd (BytesAndKeys right)) =
        filesKeys (Files left) + filesKeys (Files right)"
      using u by simp
    from c b k show ?thesis
      by (simp add: app fitsBudget_def word_le_nat_alt)
  qed
qed

lemma mergeLoop_budget:
  assumes "unat sz < 2 ^ 63" and "unat kc < 2 ^ 63"
    and "\<forall>r\<in>set rest. fitsBudget sz kc (Files r) \<and>
           (filesBytes (Files r) = 0 \<longrightarrow> filesKeys (Files r) = 0)"
    and "fitsBudget sz kc (Files left)"
    and "r \<in> set (mergeLoop dec sz kc left rest)"
  shows "fitsBudget sz kc (Files r)"
  using assms(3-)
proof (induction rest arbitrary: left)
  case Nil
  then show ?case by simp
next
  case (Cons right rest)
  have rest: "\<forall>r\<in>set rest. fitsBudget sz kc (Files r) \<and>
           (filesBytes (Files r) = 0 \<longrightarrow> filesKeys (Files r) = 0)"
    using Cons.prems(1) by simp
  have right: "fitsBudget sz kc (Files right)"
    "filesBytes (Files right) = 0 \<longrightarrow> filesKeys (Files right) = 0"
    using Cons.prems(1) by simp_all
  show ?case
  proof (cases "needMerge dec sz kc left right")
    case True
    let ?l = "left\<lparr>RangeEndKey := RangeEndKey right, Files := Files left @ Files right\<rparr>"
    have "fitsBudget sz kc (Files ?l)"
      using fitsBudget_merge[OF assms(1,2) Cons.prems(2) right True] by simp
    moreover have "r \<in> set (mergeLoop dec sz kc ?l rest)"
      using Cons.prems(3) True by simp
    ultimately show ?thesis using Cons.IH[of ?l] rest by blast
  next
    case False
    with Cons.prems(3) have "r = left \<or> r \<in> set (mergeLoop dec sz kc right rest)" by simp
    then show ?thesis
      using Cons.prems(2) Cons.IH[of right] rest right(1) by blast
  qed
qed

lemma MergeFileRanges_budget:
  assumes ok: "MergeFileRanges dec files sz kc = Ok (rs, st)"
    and sz: "unat sz < 2 ^ 63" and kc: "unat kc < 2 ^ 63"
    and groups: "\<forall>k\<in>StartKey ` set files.
        fitsBudget sz kc (Files (groupOf files k)) \<and>
        (filesBytes (Files (groupOf files k)) = 0 \<longrightarrow> filesKeys (Files (groupOf files k)) = 0)"
    and r: "r \<in> set rs"
  shows "fitsBudget sz kc (Files r)"
proof -
  let ?sorted = "GetSortedRanges (map groupRange (filesMap files))"
  have rs: "rs = mergeSorted dec sz kc ?sorted" by (rule MergeFileRanges_Ok(1)[OF ok])
  have all: "\<forall>r\<in>set ?sorted. fitsBudget sz kc (Files r) \<and>
           (filesBytes (Files r) = 0 \<longrightarrow> filesKeys (Files r) = 0)"
  proof
    fix x assume "x \<in> set ?sorted"
    then obtain k where k: "k \<in> StartKey ` set files" and x: "x = groupOf files k"
      using sortedGroups[of x files] by blast
    show "fitsBudget sz kc (Files x) \<and>
           (filesBytes (Files x) = 0 \<longrightarrow> filesKeys (Files x) = 0)"
      unfolding x by (rule bspec[OF groups k])
  qed
  show ?thesis
  proof (cases ?sorted)
    case Nil
    with rs r show ?thesis by simp
  next
    case (Cons first rest)
    with rs r have "r \<in> set (mergeLoop dec sz kc first rest)" by simp
    moreover from all Cons have "\<forall>r\<in>set rest. fitsBudget sz kc (Files r) \<and>
           (filesBytes (Files r) = 0 \<longrightarrow> filesKeys (Files r) = 0)" by simp
    moreover from all Cons have "fitsBudget sz kc (Files first)" by simp
    ultimately show ?thesis
      using mergeLoop_budget[OF sz kc, of rest first r dec] by blast
  qed
qed


text \<open>
  Why the budgets must stay below \<open>2^63\<close> for the sums to be bounded: \<open>needMerge\<close> adds the
  bytes of the two ranges in \<open>uint64\<close>. With a byte budget of \<open>2^64 - 1\<close>, two ranges of \<open>2^63\<close>
  bytes each add up to zero there and are merged, and the files of the merged range hold
  \<open>2^64\<close> bytes.
\<close>

lemma needMerge_sum_wraps:
  "needMerge DecodeTableID 0xFFFFFFFFFFFFFFFF 10
     \<lparr>RangeStartKey = tableKey 1 [], RangeEndKey = tableKey 1 [5],
      Files = [sampleFile ''a.sst'' (tableKey 1 []) (tableKey 1 [5]) 1 (2 ^ 63)]\<rparr>
     \<lparr>RangeStartKey = tableKey 1 [5], RangeEndKey = tableKey 1 [9],
      Files = [sampleFile ''b.sst'' (tableKey 1 [5]) (tableKey 1 [9]) 1 (2 ^ 63)]\<rparr> \<and>
   filesBytes [sampleFile ''a.sst'' (tableKey 1 []) (tableKey 1 [5]) 1 (2 ^ 63),
               sampleFile ''b.sst'' (tableKey 1 [5]) (tableKey 1 [9]) 1 (2 ^ 63)] = 2 ^ 64 \<and>
   unat (0xFFFFFFFFFFFFFFFF :: uint64) = 2 ^ 64 - 1"
  by (simp add: needMerge_def BytesAndKeys_def filesBytes_def sampleFile_def
      DecodeTableID_def tableKey_def)


section \<open>Properties of the planner\<close>

text \<open>
  C1, as the code has it. \<open>needMerge\<close> returns true for a right range of zero bytes before it
  looks at the table ids, so such a range is merged whatever its table. For every other range
  the table check stands: \<open>needMerge\<close> accepts a right range of non-zero bytes only when both
  start keys decode to the same table id, and in every range that \<open>MergeFileRanges\<close> returns,
  any two files that come from initial ranges of non-zero bytes have start keys that decode to
  the same table id.
\<close>

theorem MergeFileRanges_same_table:
  "(needMerge dec sz kc left right \<and> fst (BytesAndKeys right) \<noteq> 0 \<longrightarrow>
      dec (RangeStartKey left) = dec (RangeStartKey right)) \<and>
   (MergeFileRanges dec files sz kc = Ok (rs, st) \<and> r \<in> set rs \<and>
      f \<in> set (Files r) \<and> g \<in> set (Files r) \<and>
      groupBytes files (StartKey f) \<noteq> 0 \<and> groupBytes files (StartKey g) \<noteq> 0 \<longrightarrow>
      dec (StartKey f) = dec (StartKey g))"
proof (intro conjI impI)
  assume "needMerge dec sz kc left right \<and> fst (BytesAndKeys right) \<noteq> 0"
  then show "dec (RangeStartKey left) = dec (RangeStartKey right)"
    using needMerge_cases[of dec sz kc left right] by blast
next
  assume a: "MergeFileRanges dec files sz kc = Ok (rs, st) \<and> r \<in> set rs \<and>
      f \<in> set (Files r) \<and> g \<in> set (Files r) \<and>
      groupBytes files (StartKey f) \<noteq> 0 \<and> groupBytes files (StartKey g) \<noteq> 0"
  then have "dec (StartKey f) = dec (RangeStartKey r)"
    using MergeFileRanges_tables[of dec files sz kc rs st r f] by blast
  moreover from a have "dec (StartKey g) = dec (RangeStartKey r)"
    using MergeFileRanges_tables[of dec files sz kc rs st r g] by blast
  ultimately show "dec (StartKey f) = dec (StartKey g)" by simp
qed

text \<open>
  Two files of table 1 with bytes in them are merged into one range, and the theorem gives
  their common table id.
\<close>

theorem MergeFileRanges_same_table_witness:
  "MergeFileRanges DecodeTableID
     [sampleFile ''a.sst'' (tableKey 1 []) (tableKey 1 [5]) 1 1, sampleFile ''b.sst'' (tableKey 1 [5]) (tableKey 1 [9]) 2 2] 10 10 =
   Ok ([\<lparr>RangeStartKey = tableKey 1 [], RangeEndKey = tableKey 1 [9],
         Files = [sampleFile ''a.sst'' (tableKey 1 []) (tableKey 1 [5]) 1 1, sampleFile ''b.sst'' (tableKey 1 [5]) (tableKey 1 [9]) 2 2]\<rparr>],
       \<lparr>TotalFiles = 2, TotalWriteCFFile = 2, TotalDefaultCFFile = 0, TotalRegions = 2,
        RegionKeysAvg = 1, RegionBytesAvg = 1, MergedRegions = 1, MergedRegionKeysAvg = 3,
        MergedRegionBytesAvg = 3\<rparr>) \<and>
   groupBytes [sampleFile ''a.sst'' (tableKey 1 []) (tableKey 1 [5]) 1 1, sampleFile ''b.sst'' (tableKey 1 [5]) (tableKey 1 [9]) 2 2] (tableKey 1 []) \<noteq> 0 \<and>
   groupBytes [sampleFile ''a.sst'' (tableKey 1 []) (tableKey 1 [5]) 1 1, sampleFile ''b.sst'' (tableKey 1 [5]) (tableKey 1 [9]) 2 2] (tableKey 1 [5]) \<noteq> 0 \<and>
   DecodeTableID (StartKey (sampleFile ''a.sst'' (tableKey 1 []) (tableKey 1 [5]) 1 1)) =
     DecodeTableID (StartKey (sampleFile ''b.sst'' (tableKey 1 [5]) (tableKey 1 [9]) 2 2))"
proof -
  let ?a = "sampleFile ''a.sst'' (tableKey 1 []) (tableKey 1 [5]) 1 1"
  let ?b = "sampleFile ''b.sst'' (tableKey 1 [5]) (tableKey 1 [9]) 2 2"
  let ?r = "\<lparr>RangeStartKey = tableKey 1 [], RangeEndKey = tableKey 1 [9], Files = [?a, ?b]\<rparr>"
  let ?st = "\<lparr>TotalFiles = 2, TotalWriteCFFile = 2, TotalDefaultCFFile = 0, TotalRegions = 2,
        RegionKeysAvg = 1, RegionBytesAvg = 1, MergedRegions = 1, MergedRegionKeysAvg = 3,
        MergedRegionBytesAvg = 3\<rparr>"
  have ok: "MergeFileRanges DecodeTableID [?a, ?b] 10 10 = Ok ([?r], ?st)"
    by code_simp
  have ga: "groupBytes [?a, ?b] (StartKey ?a) \<noteq> 0"
    by (simp add: groupBytes_def sampleFile_def tableKey_def)
  have gb: "groupBytes [?a, ?b] (StartKey ?b) \<noteq> 0"
    by (simp add: groupBytes_def sampleFile_def tableKey_def)
  have "DecodeTableID (StartKey ?a) = DecodeTableID (StartKey ?b)"
    using MergeFileRanges_same_table[of DecodeTableID 10 10 ?r ?r "[?a, ?b]" "[?r]" ?st ?r ?a ?b]
      ok ga gb by simp
  with ok ga gb show ?thesis by (simp add: sampleFile_def)
qed

text \<open>
  C1 as stated fails: an empty file of table 2 that follows a file of table 1 is merged into
  the range of table 1, although the two start keys decode to the table ids 1 and 2.
\<close>

theorem MergeFileRanges_mixes_tables:
  "MergeFileRanges DecodeTableID
     [sampleFile ''a.sst'' (tableKey 1 []) (tableKey 1 [5]) 1 1, sampleFile ''b.sst'' (tableKey 2 []) (tableKey 2 [5]) 0 0] 10 10 =
   Ok ([\<lparr>RangeStartKey = tableKey 1 [], RangeEndKey = tableKey 2 [5],
         Files = [sampleFile ''a.sst'' (tableKey 1 []) (tableKey 1 [5]) 1 1, sampleFile ''b.sst'' (tableKey 2 []) (tableKey 2 [5]) 0 0]\<rparr>],
       \<lparr>TotalFiles = 2, TotalWriteCFFile = 2, TotalDefaultCFFile = 0, TotalRegions = 2,
        RegionKeysAvg = 0, RegionBytesAvg = 0, MergedRegions = 1, MergedRegionKeysAvg = 1,
        MergedRegionBytesAvg = 1\<rparr>) \<and>
   DecodeTableID (StartKey (sampleFile ''a.sst'' (tableKey 1 []) (tableKey 1 [5]) 1 1)) \<noteq>
     DecodeTableID (StartKey (sampleFile ''b.sst'' (tableKey 2 []) (tableKey 2 [5]) 0 0))"
proof
  show "MergeFileRanges DecodeTableID
     [sampleFile ''a.sst'' (tableKey 1 []) (tableKey 1 [5]) 1 1, sampleFile ''b.sst'' (tableKey 2 []) (tableKey 2 [5]) 0 0] 10 10 =
   Ok ([\<lparr>RangeStartKey = tableKey 1 [], RangeEndKey = tableKey 2 [5],
         Files = [sampleFile ''a.sst'' (tableKey 1 []) (tableKey 1 [5]) 1 1, sampleFile ''b.sst'' (tableKey 2 []) (tableKey 2 [5]) 0 0]\<rparr>],
       \<lparr>TotalFiles = 2, TotalWriteCFFile = 2, TotalDefaultCFFile = 0, TotalRegions = 2,
        RegionKeysAvg = 0, RegionBytesAvg = 0, MergedRegions = 1, MergedRegionKeysAvg = 1,
        MergedRegionBytesAvg = 1\<rparr>)"
    by code_simp
  show "DecodeTableID (StartKey (sampleFile ''a.sst'' (tableKey 1 []) (tableKey 1 [5]) 1 1)) \<noteq>
     DecodeTableID (StartKey (sampleFile ''b.sst'' (tableKey 2 []) (tableKey 2 [5]) 0 0))"
    by (simp add: DecodeTableID_def tableKey_def sampleFile_def)
qed

text \<open>
  C2, as the code has it. Let both budgets be below \<open>2^63\<close>, let every initial range fit both
  budgets, and let no initial range have zero bytes but keys. Then every range that
  \<open>MergeFileRanges\<close> returns fits both budgets: the sum of its files' \<open>TotalBytes\<close> is at most
  \<open>splitSizeBytes\<close> and the sum of their \<open>TotalKvs\<close> at most \<open>splitKeyCount\<close>.
\<close>

theorem MergeFileRanges_within_budget:
  assumes "MergeFileRanges dec files sz kc = Ok (rs, st)"
    and "unat sz < 2 ^ 63" and "unat kc < 2 ^ 63"
    and "\<forall>k\<in>StartKey ` set files.
        fitsBudget sz kc (Files (groupOf files k)) \<and>
        (filesBytes (Files (groupOf files k)) = 0 \<longrightarrow> filesKeys (Files (groupOf files k)) = 0)"
    and "r \<in> set rs"
  shows "filesBytes (Files r) \<le> unat sz \<and> filesKeys (Files r) \<le> unat kc"
  using MergeFileRanges_budget[OF assms] by (simp add: fitsBudget_def)

theorem MergeFileRanges_within_budget_witness:
  "MergeFileRanges DecodeTableID
     [sampleFile ''a.sst'' (tableKey 1 []) (tableKey 1 [5]) 1 1, sampleFile ''b.sst'' (tableKey 1 [5]) (tableKey 1 [9]) 2 2] 10 10 =
   Ok ([\<lparr>RangeStartKey = tableKey 1 [], RangeEndKey = tableKey 1 [9],
         Files = [sampleFile ''a.sst'' (tableKey 1 []) (tableKey 1 [5]) 1 1, sampleFile ''b.sst'' (tableKey 1 [5]) (tableKey 1 [9]) 2 2]\<rparr>],
       \<lparr>TotalFiles = 2, TotalWriteCFFile = 2, TotalDefaultCFFile = 0, TotalRegions = 2,
        RegionKeysAvg = 1, RegionBytesAvg = 1, MergedRegions = 1, MergedRegionKeysAvg = 3,
        MergedRegionBytesAvg = 3\<rparr>) \<and>
   filesBytes [sampleFile ''a.sst'' (tableKey 1 []) (tableKey 1 [5]) 1 1, sampleFile ''b.sst'' (tableKey 1 [5]) (tableKey 1 [9]) 2 2] \<le> 10 \<and>
   filesKeys [sampleFile ''a.sst'' (tableKey 1 []) (tableKey 1 [5]) 1 1, sampleFile ''b.sst'' (tableKey 1 [5]) (tableKey 1 [9]) 2 2] \<le> 10"
proof -
  let ?a = "sampleFile ''a.sst'' (tableKey 1 []) (tableKey 1 [5]) 1 1"
  let ?b = "sampleFile ''b.sst'' (tableKey 1 [5]) (tableKey 1 [9]) 2 2"
  let ?r = "\<lparr>RangeStartKey = tableKey 1 [], RangeEndKey = tableKey 1 [9], Files = [?a, ?b]\<rparr>"
  let ?st = "\<lparr>TotalFiles = 2, TotalWriteCFFile = 2, TotalDefaultCFFile = 0, TotalRegions = 2,
        RegionKeysAvg = 1, RegionBytesAvg = 1, MergedRegions = 1, MergedRegionKeysAvg = 3,
        MergedRegionBytesAvg = 3\<rparr>"
  have ok: "MergeFileRanges DecodeTableID [?a, ?b] 10 10 = Ok ([?r], ?st)"
    by code_simp
  have sz: "unat (10 :: uint64) < 2 ^ 63" by simp
  have groups: "\<forall>k\<in>StartKey ` set [?a, ?b].
        fitsBudget 10 10 (Files (groupOf [?a, ?b] k)) \<and>
        (filesBytes (Files (groupOf [?a, ?b] k)) = 0 \<longrightarrow> filesKeys (Files (groupOf [?a, ?b] k)) = 0)"
    by (simp add: sampleFile_def tableKey_def groupOf_def groupRange_def fitsBudget_def filesBytes_def
        filesKeys_def)
  have r: "?r \<in> set [?r]" by simp
  from MergeFileRanges_within_budget[OF ok sz sz groups r] ok
  show ?thesis by simp
qed

text \<open>
  C2 as stated fails: each of the two initial ranges fits the budgets of 10 bytes and 5 keys,
  the second has keys but no bytes, and the merged range has 10 keys.
\<close>

theorem MergeFileRanges_over_key_budget:
  "fitsBudget 10 5 [sampleFile ''a.sst'' (tableKey 1 []) (tableKey 1 [5]) 5 1] \<and>
   fitsBudget 10 5 [sampleFile ''b.sst'' (tableKey 1 [5]) (tableKey 1 [9]) 5 0] \<and>
   MergeFileRanges DecodeTableID
     [sampleFile ''a.sst'' (tableKey 1 []) (tableKey 1 [5]) 5 1, sampleFile ''b.sst'' (tableKey 1 [5]) (tableKey 1 [9]) 5 0] 10 5 =
   Ok ([\<lparr>RangeStartKey = tableKey 1 [], RangeEndKey = tableKey 1 [9],
         Files = [sampleFile ''a.sst'' (tableKey 1 []) (tableKey 1 [5]) 5 1, sampleFile ''b.sst'' (tableKey 1 [5]) (tableKey 1 [9]) 5 0]\<rparr>],
       \<lparr>TotalFiles = 2, TotalWriteCFFile = 2, TotalDefaultCFFile = 0, TotalRegions = 2,
        RegionKeysAvg = 5, RegionBytesAvg = 0, MergedRegions = 1, MergedRegionKeysAvg = 10,
        MergedRegionBytesAvg = 1\<rparr>) \<and>
   filesKeys [sampleFile ''a.sst'' (tableKey 1 []) (tableKey 1 [5]) 5 1, sampleFile ''b.sst'' (tableKey 1 [5]) (tableKey 1 [9]) 5 0] = 10 \<and>
   \<not> fitsBudget 10 5 [sampleFile ''a.sst'' (tableKey 1 []) (tableKey 1 [5]) 5 1, sampleFile ''b.sst'' (tableKey 1 [5]) (tableKey 1 [9]) 5 0]"
proof (intro conjI)
  show "MergeFileRanges DecodeTableID
     [sampleFile ''a.sst'' (tableKey 1 []) (tableKey 1 [5]) 5 1, sampleFile ''b.sst'' (tableKey 1 [5]) (tableKey 1 [9]) 5 0] 10 5 =
   Ok ([\<lparr>RangeStartKey = tableKey 1 [], RangeEndKey = tableKey 1 [9],
         Files = [sampleFile ''a.sst'' (tableKey 1 []) (tableKey 1 [5]) 5 1, sampleFile ''b.sst'' (tableKey 1 [5]) (tableKey 1 [9]) 5 0]\<rparr>],
       \<lparr>TotalFiles = 2, TotalWriteCFFile = 2, TotalDefaultCFFile = 0, TotalRegions = 2,
        RegionKeysAvg = 5, RegionBytesAvg = 0, MergedRegions = 1, MergedRegionKeysAvg = 10,
        MergedRegionBytesAvg = 1\<rparr>)"
    by code_simp
qed (simp_all add: fitsBudget_def filesBytes_def filesKeys_def sampleFile_def)



text \<open>
  C9: on a non-empty input \<open>MergeFileRanges\<close> returns ranges and statistics only if some file
  is classified as write-CF. When no file is, the call that gets past the overlap check
  divides the totals by the zero count of write-CF files and panics (a call that does not get
  past it returns \<open>InvalidRange\<close>), so a write-CF file is needed for the call to be safe.
\<close>

theorem MergeFileRanges_needs_writeCF:
  "(files \<noteq> [] \<and> MergeFileRanges dec files sz kc = Ok (rs, st) \<longrightarrow>
      (\<exists>f\<in>set files. isWriteCF f)) \<and>
   (files \<noteq> [] \<and> (\<forall>f\<in>set files. \<not> isWriteCF f) \<longrightarrow>
      MergeFileRanges dec files sz kc =
        (if groupsCollide files then Err ErrRestoreInvalidRange else Panic DivideByZero))"
proof (intro conjI impI)
  assume a: "files \<noteq> [] \<and> MergeFileRanges dec files sz kc = Ok (rs, st)"
  then have "filter isWriteCF files \<noteq> []"
    using MergeFileRanges_Ok(2)[of dec files sz kc rs st] by blast
  then show "\<exists>f\<in>set files. isWriteCF f"
    by (simp add: filter_empty_conv)
next
  assume "files \<noteq> [] \<and> (\<forall>f\<in>set files. \<not> isWriteCF f)"
  then show "MergeFileRanges dec files sz kc =
        (if groupsCollide files then Err ErrRestoreInvalidRange else Panic DivideByZero)"
    using MergeFileRanges_noWriteCF[of files dec sz kc] by blast
qed

text \<open>One file of the default column family: the call panics.\<close>

theorem MergeFileRanges_needs_writeCF_witness:
  "[\<lparr>Name = ''1_default.sst'', StartKey = tableKey 1 [], EndKey = tableKey 1 [5], Cf = ''default'',
      TotalKvs = 1, TotalBytes = 1\<rparr>] \<noteq> [] \<and>
   \<not> isWriteCF \<lparr>Name = ''1_default.sst'', StartKey = tableKey 1 [], EndKey = tableKey 1 [5], Cf = ''default'',
      TotalKvs = 1, TotalBytes = 1\<rparr> \<and>
   MergeFileRanges DecodeTableID
     [\<lparr>Name = ''1_default.sst'', StartKey = tableKey 1 [], EndKey = tableKey 1 [5], Cf = ''default'',
       TotalKvs = 1, TotalBytes = 1\<rparr>] 10 10 = Panic DivideByZero"
proof -
  let ?d = "\<lparr>Name = ''1_default.sst'', StartKey = tableKey 1 [], EndKey = tableKey 1 [5], Cf = ''default'',
      TotalKvs = 1, TotalBytes = 1\<rparr>"
  have n: "\<not> isWriteCF ?d" by code_simp
  have c: "\<not> groupsCollide [?d]" by (simp add: groupsCollide_def)
  from MergeFileRanges_needs_writeCF[of "[?d]" DecodeTableID 10 10 "[]" emptyStat] n c
  show ?thesis by simp
qed

section \<open>Properties of the ingest error classifier\<close>





section \<open>Properties of \<open>writeRows\<close>\<close>

lemma removeDuplicates_keys:
  "set (map Key (removeDuplicates kvs)) = set (map Key kvs)"
  by (induction kvs rule: removeDuplicates.induct) auto

lemma removeDuplicates_subset:
  "set (removeDuplicates kvs) \<subseteq> set kvs"
  by (induction kvs rule: removeDuplicates.induct) auto

lemma removeDuplicates_strict:
  "sorted (map Key kvs) \<Longrightarrow> sorted_wrt (<) (map Key (removeDuplicates kvs))"
proof (induction kvs rule: removeDuplicates.induct)
  case 1
  then show ?case by simp
next
  case (2 kv)
  then show ?case by simp
next
  case (3 kv nxt rest)
  have tail: "sorted (map Key (nxt # rest))" using "3.prems" by simp
  show ?case
  proof (cases "Key kv = Key nxt")
    case True
    with 3 tail show ?thesis by simp
  next
    case False
    have "\<forall>k\<in>set (map Key (nxt # rest)). Key kv < k"
    proof
      fix k assume k: "k \<in> set (map Key (nxt # rest))"
      have "Key kv \<le> Key nxt" using "3.prems" by simp
      with False have "Key kv < Key nxt" by simp
      moreover have "Key nxt \<le> k" using tail k by auto
      ultimately show "Key kv < k" by simp
    qed
    then have "\<forall>k\<in>set (map Key (removeDuplicates (nxt # rest))). Key kv < k"
      by (simp only: removeDuplicates_keys)
    with False "3.IH"(2)[OF False tail] show ?thesis by simp
  qed
qed

lemma removeDuplicates_last:
  "sorted (map Key kvs) \<Longrightarrow> p \<in> set (removeDuplicates kvs) \<Longrightarrow>
   p = last (filter (\<lambda>q. Key q = Key p) kvs)"
proof (induction kvs rule: removeDuplicates.induct)
  case 1
  then show ?case by simp
next
  case (2 kv)
  then show ?case by simp
next
  case (3 kv nxt rest)
  have tail: "sorted (map Key (nxt # rest))" using "3.prems"(1) by simp
  show ?case
  proof (cases "Key kv = Key nxt")
    case True
    with "3.prems"(2) have p: "p \<in> set (removeDuplicates (nxt # rest))" by simp
    then have ih: "p = last (filter (\<lambda>q. Key q = Key p) (nxt # rest))"
      using "3.IH"(1)[OF True tail] by simp
    from p have "p \<in> set (nxt # rest)" using removeDuplicates_subset by blast
    then have "filter (\<lambda>q. Key q = Key p) (nxt # rest) \<noteq> []"
      by (simp only: filter_empty_conv) blast
    then have "last (filter (\<lambda>q. Key q = Key p) (kv # nxt # rest)) =
        last (filter (\<lambda>q. Key q = Key p) (nxt # rest))"
      by (simp del: filter.simps(2) add: filter.simps(2)[of _ kv])
    with ih show ?thesis by simp
  next
    case False
    have above: "\<forall>q\<in>set (nxt # rest). Key kv < Key q"
    proof
      fix q assume q: "q \<in> set (nxt # rest)"
      have "Key kv \<le> Key nxt" using "3.prems"(1) by simp
      with False have "Key kv < Key nxt" by simp
      moreover have "Key nxt \<le> Key q" using tail q by auto
      ultimately show "Key kv < Key q" by simp
    qed
    from "3.prems"(2) False have "p = kv \<or> p \<in> set (removeDuplicates (nxt # rest))" by simp
    then show ?thesis
    proof
      assume "p = kv"
      moreover have "filter (\<lambda>q. Key q = Key kv) (nxt # rest) = []"
        using above by (simp only: filter_empty_conv) fastforce
      ultimately show ?thesis by (simp del: filter.simps(2) add: filter.simps(2)[of _ kv])
    next
      assume p: "p \<in> set (removeDuplicates (nxt # rest))"
      then have ih: "p = last (filter (\<lambda>q. Key q = Key p) (nxt # rest))"
        using "3.IH"(2)[OF False tail] by simp
      from p have "p \<in> set (nxt # rest)" using removeDuplicates_subset by blast
      with above have "Key kv \<noteq> Key p" by fastforce
      then have "filter (\<lambda>q. Key q = Key p) (kv # nxt # rest) =
          filter (\<lambda>q. Key q = Key p) (nxt # rest)"
        by (simp del: filter.simps(2) add: filter.simps(2)[of _ kv])
      with ih show ?thesis by simp
    qed
  qed
qed

lemma sortSliceStable_stable:
  "sorted (map Key (sortSliceStable kvs))"
  "set (sortSliceStable kvs) = set kvs"
  "filter (\<lambda>q. Key q = k) (sortSliceStable kvs) = filter (\<lambda>q. Key q = k) kvs"
  by (simp_all add: sortSliceStable_def sort_key_stable)

text \<open>
  C4: \<open>writeRows\<close> sorts the pairs stably by key and then drops duplicate keys, keeping the
  last occurrence. For every non-empty input there is a sequence that it passes on to
  \<open>writeAndIngestPairs\<close>; that sequence is strictly increasing in key, has exactly the keys of
  the input, and each of its pairs is the last pair with that key in the stably sorted input,
  which is the last pair with that key in the input itself.
\<close>

theorem writeRows_last_writer_wins:
  "(kvs \<noteq> [] \<longrightarrow> (\<exists>newKvs. writeRows kvs = Some newKvs)) \<and>
   (writeRows kvs = Some newKvs \<longrightarrow>
      sorted_wrt (<) (map Key newKvs) \<and>
      set (map Key newKvs) = set (map Key kvs) \<and>
      (\<forall>p\<in>set newKvs.
         p = last (filter (\<lambda>q. Key q = Key p) (sortSliceStable kvs)) \<and>
         p = last (filter (\<lambda>q. Key q = Key p) kvs)))"
proof (intro conjI impI)
  assume "kvs \<noteq> []"
  then show "\<exists>newKvs. writeRows kvs = Some newKvs" by (simp add: writeRows_def)
next
  assume w: "writeRows kvs = Some newKvs"
  then have n: "newKvs = removeDuplicates (sortSliceStable kvs)"
    by (simp add: writeRows_def split: if_splits)
  show "sorted_wrt (<) (map Key newKvs)"
    unfolding n by (rule removeDuplicates_strict) (rule sortSliceStable_stable(1))
  show "set (map Key newKvs) = set (map Key kvs)"
    unfolding n removeDuplicates_keys by (simp add: sortSliceStable_def)
  show "\<forall>p\<in>set newKvs.
         p = last (filter (\<lambda>q. Key q = Key p) (sortSliceStable kvs)) \<and>
         p = last (filter (\<lambda>q. Key q = Key p) kvs)"
  proof
    fix p assume "p \<in> set newKvs"
    then have "p = last (filter (\<lambda>q. Key q = Key p) (sortSliceStable kvs))"
      unfolding n using removeDuplicates_last[OF sortSliceStable_stable(1)] by blast
    then show "p = last (filter (\<lambda>q. Key q = Key p) (sortSliceStable kvs)) \<and>
         p = last (filter (\<lambda>q. Key q = Key p) kvs)"
      by (simp add: sortSliceStable_stable(3))
  qed
qed

text \<open>Key 2 is written twice; the later pair, a delete, is the one passed on.\<close>

theorem writeRows_last_writer_wins_witness:
  "writeRows [samplePair [2] [1], samplePair [1] [2], \<lparr>Key = [2], Val = [3], IsDelete = True\<rparr>] =
     Some [samplePair [1] [2], \<lparr>Key = [2], Val = [3], IsDelete = True\<rparr>] \<and>
   sorted_wrt (<) (map Key [samplePair [1] [2], \<lparr>Key = [2], Val = [3], IsDelete = True\<rparr>]) \<and>
   set (map Key [samplePair [1] [2], \<lparr>Key = [2], Val = [3], IsDelete = True\<rparr>]) =
     set (map Key [samplePair [2] [1], samplePair [1] [2], \<lparr>Key = [2], Val = [3], IsDelete = True\<rparr>])"
proof -
  let ?kvs = "[samplePair [2] [1], samplePair [1] [2], \<lparr>Key = [2], Val = [3], IsDelete = True\<rparr>]"
  let ?new = "[samplePair [1] [2], \<lparr>Key = [2], Val = [3], IsDelete = True\<rparr>]"
  have w: "writeRows ?kvs = Some ?new" by code_simp
  from writeRows_last_writer_wins[of ?kvs ?new] w show ?thesis by blast
qed

section \<open>Properties of the write phase\<close>

lemma batchLoop_spec:
  assumes "(firstLoop \<and> length pairs = count) \<or> (\<not> firstLoop \<and> length pairs = batchCap B)"
    and "count < batchCap B"
  shows "\<exists>bs. batchLoop B kvs pairs count firstLoop = Some bs \<and>
           concat bs = take count pairs @ map toSstPair kvs \<and>
           (\<forall>b\<in>set bs. b \<noteq> [] \<and> length b \<le> batchCap B)"
  using assms
proof (induction kvs arbitrary: pairs count firstLoop)
  case Nil
  have "count \<le> length pairs" using Nil by auto
  with Nil show ?case by (cases "count = 0") auto
next
  case (Cons kv kvs)
  let ?p = "toSstPair kv"
  let ?pairs = "if firstLoop then pairs @ [?p] else pairs[count := ?p]"
  have inrange: "\<not> (\<not> firstLoop \<and> \<not> count < length pairs)"
    using Cons.prems by auto
  have tk: "take (Suc count) ?pairs = take count pairs @ [?p]"
  proof (cases firstLoop)
    case True
    with Cons.prems show ?thesis by auto
  next
    case False
    with Cons.prems have "count < length pairs" by auto
    then have "take (Suc count) (pairs[count := ?p]) = take count pairs @ [?p]"
      by (simp add: take_Suc_conv_app_nth)
    with False show ?thesis by simp
  qed
  have len: "length ?pairs = (if firstLoop then Suc count else batchCap B)"
    using Cons.prems by auto
  show ?case
  proof (cases "int (count + 1) \<ge> B")
    case True
    have full: "Suc count = batchCap B"
      using True Cons.prems(2) by (auto simp: batchCap_def split: if_splits)
    then have lenL: "length ?pairs = batchCap B" using len by simp
    then have whole: "?pairs = take count pairs @ [?p]"
      using tk full by (metis order_refl take_all)
    have "(\<not> False \<and> length ?pairs = batchCap B)" using lenL by simp
    moreover have "0 < batchCap B" by (simp add: batchCap_def)
    ultimately obtain bs where bs: "batchLoop B kvs ?pairs 0 False = Some bs"
      "concat bs = take 0 ?pairs @ map toSstPair kvs"
      "\<forall>b\<in>set bs. b \<noteq> [] \<and> length b \<le> batchCap B"
      using Cons.IH[of False ?pairs 0] by blast
    have "batchLoop B (kv # kvs) pairs count firstLoop = Some (?pairs # bs)"
      using inrange True bs(1) by (simp add: Let_def)
    moreover have "concat (?pairs # bs) = take count pairs @ map toSstPair (kv # kvs)"
      using bs(2) whole by simp
    moreover have "\<forall>b\<in>set (?pairs # bs). b \<noteq> [] \<and> length b \<le> batchCap B"
      using bs(3) lenL whole by auto
    ultimately show ?thesis by blast
  next
    case False
    then have small: "Suc count < batchCap B"
      by (auto simp: batchCap_def split: if_splits)
    have inv: "(firstLoop \<and> length ?pairs = Suc count) \<or> (\<not> firstLoop \<and> length ?pairs = batchCap B)"
      using len by auto
    obtain bs where bs: "batchLoop B kvs ?pairs (Suc count) firstLoop = Some bs"
      "concat bs = take (Suc count) ?pairs @ map toSstPair kvs"
      "\<forall>b\<in>set bs. b \<noteq> [] \<and> length b \<le> batchCap B"
      using Cons.IH[OF inv small] by blast
    have "batchLoop B (kv # kvs) pairs count firstLoop = Some bs"
      using inrange False bs(1) by (simp add: Let_def)
    moreover have "concat bs = take count pairs @ map toSstPair (kv # kvs)"
      using bs(2) tk by simp
    ultimately show ?thesis using bs(3) by blast
  qed
qed

lemma batchLoop_start:
  "\<exists>bs. batchLoop B kvs [] 0 True = Some bs \<and> concat bs = map toSstPair kvs \<and>
           (\<forall>b\<in>set bs. b \<noteq> [] \<and> length b \<le> batchCap B)"
proof -
  have "0 < batchCap B" by (simp add: batchCap_def)
  then show ?thesis using batchLoop_spec[of True "[]" 0 B kvs] by simp
qed

lemma streamedPairs_batches:
  "streamedPairs (map (WriteRequest_Batch ts) bs) = concat bs"
  by (induction bs) simp_all

lemma writeToTiKV_streams:
  assumes "kvs \<noteq> []" and "0 \<le> B"
  shows "\<exists>meta bs. writeToTiKV enc uid composeTS now B kvs region =
            Ok (map (\<lambda>peer. (StoreId peer,
                  WriteRequest_Meta meta # map (WriteRequest_Batch (composeTS (now * 1000) 0)) bs))
               (Peers (Region region))) \<and>
          concat bs = map toSstPair kvs \<and>
          (\<forall>b\<in>set bs. b \<noteq> [] \<and> length b \<le> batchCap B)"
proof -
  obtain bs where bs: "batchLoop B kvs [] 0 True = Some bs" "concat bs = map toSstPair kvs"
    "\<forall>b\<in>set bs. b \<noteq> [] \<and> length b \<le> batchCap B"
    using batchLoop_start[of B kvs] by blast
  show ?thesis
    using assms bs by (simp add: writeToTiKV_def Let_def) blast
qed

lemma findStart_takeWhile:
  assumes "\<exists>kv\<in>set kvs. startKey \<le> Key kv"
  shows "findStart startKey kvs i = i + length (takeWhile (\<lambda>kv. \<not> startKey \<le> Key kv) kvs)"
  using assms
proof (induction kvs arbitrary: i)
  case Nil
  then show ?case by simp
next
  case (Cons a kvs)
  show ?case
  proof (cases "startKey \<le> Key a")
    case True
    then show ?thesis by simp
  next
    case False
    with Cons.prems have "\<exists>kv\<in>set kvs. startKey \<le> Key kv" by auto
    from Cons.IH[OF this, of "i + 1"] False show ?thesis by simp
  qed
qed

lemma beforeEnd_down:
  "beforeEnd k endKey \<Longrightarrow> k' \<le> k \<Longrightarrow> beforeEnd k' endKey"
  by (auto simp: beforeEnd_def)

lemma filter_beforeEnd_sorted:
  "sorted (map Key kvs) \<Longrightarrow>
   filter (\<lambda>kv. beforeEnd (Key kv) endKey) kvs = takeWhile (\<lambda>kv. beforeEnd (Key kv) endKey) kvs"
proof (induction kvs)
  case Nil
  then show ?case by simp
next
  case (Cons kv kvs)
  show ?case
  proof (cases "beforeEnd (Key kv) endKey")
    case True
    with Cons show ?thesis by simp
  next
    case False
    have "\<forall>x\<in>set kvs. \<not> beforeEnd (Key x) endKey"
      using Cons.prems False beforeEnd_down[of _ endKey "Key kv"] by auto
    then have "filter (\<lambda>kv. beforeEnd (Key kv) endKey) kvs = []"
      by (simp add: filter_empty_conv)
    with False show ?thesis by simp
  qed
qed

lemma filter_fromStart_sorted:
  "sorted (map Key kvs) \<Longrightarrow>
   filter (\<lambda>kv. startKey \<le> Key kv) kvs = dropWhile (\<lambda>kv. \<not> startKey \<le> Key kv) kvs"
proof (induction kvs)
  case Nil
  then show ?case by simp
next
  case (Cons kv kvs)
  show ?case
  proof (cases "startKey \<le> Key kv")
    case True
    have "\<forall>x\<in>set kvs. startKey \<le> Key x"
      using Cons.prems True by auto
    then have "filter (\<lambda>kv. startKey \<le> Key kv) kvs = kvs"
      by (simp add: filter_id_conv)
    with True show ?thesis by simp
  next
    case False
    with Cons show ?thesis by simp
  qed
qed

lemma takeWhile_snoc_fail:
  "\<not> P x \<Longrightarrow> takeWhile P (xs @ [x]) = takeWhile P xs"
  by (induction xs) simp_all

lemma findEnd_takeWhile:
  assumes "sorted (map Key kvs)" and "n \<le> length kvs"
  shows "findEnd endKey kvs n = length (takeWhile (\<lambda>kv. beforeEnd (Key kv) endKey) (take n kvs))"
  using assms(2)
proof (induction n)
  case 0
  then show ?case by simp
next
  case (Suc i)
  then have i: "i < length kvs" by simp
  have split: "take (Suc i) kvs = take i kvs @ [kvs ! i]"
    using i by (rule take_Suc_conv_app_nth)
  show ?case
  proof (cases "beforeEnd (Key (kvs ! i)) endKey")
    case True
    have "\<forall>x\<in>set (take (Suc i) kvs). beforeEnd (Key x) endKey"
    proof
      fix x assume "x \<in> set (take (Suc i) kvs)"
      then obtain j where j: "j < Suc i" "x = kvs ! j"
        using i by (auto simp: in_set_conv_nth)
      have "map Key kvs ! j \<le> map Key kvs ! i"
        using assms(1) j(1) i by (intro sorted_nth_mono) auto
      then have "Key x \<le> Key (kvs ! i)" using j i by simp
      with True show "beforeEnd (Key x) endKey" by (rule beforeEnd_down)
    qed
    then have "takeWhile (\<lambda>kv. beforeEnd (Key kv) endKey) (take (Suc i) kvs) = take (Suc i) kvs"
      by (simp only: takeWhile_eq_all_conv)
    then have "length (takeWhile (\<lambda>kv. beforeEnd (Key kv) endKey) (take (Suc i) kvs)) =
        length (take (Suc i) kvs)"
      by (rule arg_cong)
    moreover have "length (take (Suc i) kvs) = Suc i" using i by simp
    moreover have "findEnd endKey kvs (Suc i) = Suc i" using True by simp
    ultimately show ?thesis by simp
  next
    case False
    have "takeWhile (\<lambda>kv. beforeEnd (Key kv) endKey) (take (Suc i) kvs) =
        takeWhile (\<lambda>kv. beforeEnd (Key kv) endKey) (take i kvs)"
      unfolding split using False by (rule takeWhile_snoc_fail)
    with False Suc show ?thesis by simp
  qed
qed

lemma slice_inside:
  assumes s: "sorted (map Key kvs)"
    and x: "\<exists>kv\<in>set kvs. inRegionKeys startKey endKey kv"
  shows "sliceOf kvs (findStart startKey kvs 0) (findEnd endKey kvs (length kvs)) =
     Some (filter (inRegionKeys startKey endKey) kvs)"
proof -
  let ?Q = "\<lambda>kv. beforeEnd (Key kv) endKey"
  let ?P = "\<lambda>kv. \<not> startKey \<le> Key kv"
  let ?tq = "takeWhile ?Q kvs"
  let ?e = "length ?tq"
  let ?s = "length (takeWhile ?P kvs)"
  have st: "findStart startKey kvs 0 = ?s"
    using x findStart_takeWhile[of kvs startKey 0] by (auto simp: inRegionKeys_def)
  have en: "findEnd endKey kvs (length kvs) = ?e"
    using findEnd_takeWhile[OF s, of "length kvs" endKey] by simp
  have tq: "?tq = take ?e kvs" by (rule takeWhile_eq_take)
  have fq: "filter ?Q kvs = ?tq" by (rule filter_beforeEnd_sorted[OF s])
  obtain kv where kv: "kv \<in> set kvs" "startKey \<le> Key kv" "?Q kv"
    using x by (auto simp: inRegionKeys_def)
  then have "kv \<in> set (filter ?Q kvs)" by simp
  then have kvtq: "kv \<in> set ?tq" by (simp only: fq)
  have "takeWhile ?P (?tq @ dropWhile ?Q kvs) = takeWhile ?P ?tq"
    using kvtq kv(2) by (intro takeWhile_append1[of kv]) auto
  then have same: "takeWhile ?P kvs = takeWhile ?P ?tq" by simp
  then have le: "?s \<le> ?e" using length_takeWhile_le[of ?P ?tq] by simp
  have "sorted (map Key ?tq)"
    using s by (subst tq) (simp add: take_map[symmetric] sorted_wrt_take)
  then have "filter (\<lambda>kv. startKey \<le> Key kv) ?tq = dropWhile ?P ?tq"
    by (rule filter_fromStart_sorted)
  also have "\<dots> = drop ?s ?tq"
    using dropWhile_eq_drop[of ?P ?tq] same by simp
  also have "\<dots> = take (?e - ?s) (drop ?s kvs)"
    by (subst tq) (simp add: drop_take)
  finally have "filter (\<lambda>kv. startKey \<le> Key kv) (filter ?Q kvs) = take (?e - ?s) (drop ?s kvs)"
    by (simp only: fq)
  moreover have "filter (inRegionKeys startKey endKey) kvs =
      filter (\<lambda>kv. startKey \<le> Key kv) (filter ?Q kvs)"
    by (auto simp: inRegionKeys_def intro: filter_cong)
  moreover have "?e \<le> length kvs" by (rule length_takeWhile_le)
  ultimately show ?thesis using le by (simp add: sliceOf_def st en)
qed

lemma doWriteAndIngest_inside:
  assumes "sorted (map Key kvs)"
    and "\<exists>kv\<in>set kvs. inRegionKeys (decodeKey (RegionStartKey (Region region)))
            (decodeKey (RegionEndKey (Region region))) kv"
    and "decodeKey [] = []"
  shows "doWriteAndIngest decodeKey enc uid composeTS now B kvs region =
     writeToTiKV enc uid composeTS now B
       (filter (inRegionKeys (decodeKey (RegionStartKey (Region region)))
            (decodeKey (RegionEndKey (Region region)))) kvs) region"
proof -
  have a: "(if RegionStartKey (Region region) \<noteq> [] then decodeKey (RegionStartKey (Region region)) else [])
      = decodeKey (RegionStartKey (Region region))"
    using assms(3) by simp
  have b: "(if RegionEndKey (Region region) \<noteq> [] then decodeKey (RegionEndKey (Region region)) else [])
      = decodeKey (RegionEndKey (Region region))"
    using assms(3) by simp
  show ?thesis
    unfolding doWriteAndIngest_def a b Let_def
    by (simp add: slice_inside[OF assms(1,2)])
qed

lemma writeToTiKV_requests:
  assumes "writeToTiKV enc uid composeTS now B kvs region = Ok streams"
    and "(store, reqs) \<in> set streams"
  shows "\<exists>meta bs. reqs = WriteRequest_Meta meta # map (WriteRequest_Batch (composeTS (now * 1000) 0)) bs \<and>
           concat bs = map toSstPair kvs \<and> (\<forall>b\<in>set bs. b \<noteq> [] \<and> length b \<le> batchCap B)"
proof -
  have "kvs \<noteq> []" and "0 \<le> B"
    using assms(1) by (auto simp: writeToTiKV_def Let_def split: if_splits)
  then obtain meta bs where
    w: "writeToTiKV enc uid composeTS now B kvs region =
            Ok (map (\<lambda>peer. (StoreId peer,
                  WriteRequest_Meta meta # map (WriteRequest_Batch (composeTS (now * 1000) 0)) bs))
               (Peers (Region region)))"
    and bs: "concat bs = map toSstPair kvs" "\<forall>b\<in>set bs. b \<noteq> [] \<and> length b \<le> batchCap B"
    using writeToTiKV_streams[of kvs B enc uid composeTS now region] by blast
  from w assms have "reqs = WriteRequest_Meta meta # map (WriteRequest_Batch (composeTS (now * 1000) 0)) bs"
    by auto
  with bs show ?thesis by blast
qed

lemma writeToTiKV_streamedPairs:
  assumes "writeToTiKV enc uid composeTS now B kvs region = Ok streams"
    and "(store, reqs) \<in> set streams"
  shows "streamedPairs reqs = map toSstPair kvs"
  using writeToTiKV_requests[OF assms] by (auto simp: streamedPairs_batches)

text \<open>
  What holds of the write phase: when the keys are sorted and at least one of them lies in the
  region's interval (and \<open>BatchWriteKVPairs\<close> is not negative), every peer of the region is
  sent exactly the pairs of that interval, in input order and each once.
\<close>

lemma doWriteAndIngest_streams_inside:
  assumes "sorted (map Key kvs)"
    and "\<exists>kv\<in>set kvs. inRegionKeys (decodeKey (RegionStartKey (Region region)))
            (decodeKey (RegionEndKey (Region region))) kv"
    and "decodeKey [] = []"
    and "0 \<le> B"
  shows "\<exists>streams. doWriteAndIngest decodeKey enc uid composeTS now B kvs region = Ok streams \<and>
           map fst streams = map StoreId (Peers (Region region)) \<and>
           (\<forall>(store, reqs)\<in>set streams.
              streamedPairs reqs =
                map toSstPair (filter (inRegionKeys (decodeKey (RegionStartKey (Region region)))
                  (decodeKey (RegionEndKey (Region region)))) kvs))"
proof -
  let ?part = "filter (inRegionKeys (decodeKey (RegionStartKey (Region region)))
                  (decodeKey (RegionEndKey (Region region)))) kvs"
  have d: "doWriteAndIngest decodeKey enc uid composeTS now B kvs region =
      writeToTiKV enc uid composeTS now B ?part region"
    by (rule doWriteAndIngest_inside[OF assms(1-3)])
  have "?part \<noteq> []" using assms(2) by (simp add: filter_empty_conv)
  from this assms(4) obtain meta bs where
    w: "writeToTiKV enc uid composeTS now B ?part region =
            Ok (map (\<lambda>peer. (StoreId peer,
                  WriteRequest_Meta meta # map (WriteRequest_Batch (composeTS (now * 1000) 0)) bs))
               (Peers (Region region)))"
    using writeToTiKV_streams[of ?part B enc uid composeTS now region] by blast
  let ?streams = "map (\<lambda>peer. (StoreId peer,
                  WriteRequest_Meta meta # map (WriteRequest_Batch (composeTS (now * 1000) 0)) bs))
               (Peers (Region region))"
  have "map fst ?streams = map StoreId (Peers (Region region))" by simp
  moreover have "\<forall>(store, reqs)\<in>set ?streams. streamedPairs reqs = map toSstPair ?part"
    using writeToTiKV_streamedPairs[OF w] by blast
  ultimately show ?thesis using d w by simp
qed

text \<open>
  C5 says that \<open>doWriteAndIngest\<close>, on sorted pairs and a region, streams to the region's peers
  exactly the pairs whose keys lie in the region's interval, and writes no pair outside it. On
  the code this fails. When no key of the input reaches \<open>startKey\<close>, the first search loop
  leaves \<open>start\<close> at zero and the second sets \<open>end\<close> behind the last pair, so the whole input
  is streamed to a region that owns none of it: here the pair with key \<open>a\<close> goes to the peer
  of the region from \<open>b\<close> to \<open>c\<close>.
\<close>

theorem doWriteAndIngest_writes_outside_region:
  "\<not> inRegionKeys [98] [99] (samplePair [97] [1]) \<and>
   doWriteAndIngest (\<lambda>k. k) (\<lambda>k. k) [7] ComposeTS 5 2
     [samplePair [97] [1]] (sampleRegion [98] [99] [\<lparr>PeerId = 11, StoreId = 1\<rparr>]) =
   Ok [(1, [WriteRequest_Meta \<lparr>Uuid = [7], MetaRegionId = 1, MetaRegionEpoch = (1, 1),
                               Range = Some \<lparr>Start = [97], End = [97]\<rparr>\<rparr>,
            WriteRequest_Batch 1310720000 [\<lparr>PairKey = [97], PairValue = [1], Op = Pair_Put\<rparr>]])]"
proof
  show "\<not> inRegionKeys [98] [99] (samplePair [97] [1])"
    by (simp add: inRegionKeys_def samplePair_def)
  show "doWriteAndIngest (\<lambda>k. k) (\<lambda>k. k) [7] ComposeTS 5 2
     [samplePair [97] [1]] (sampleRegion [98] [99] [\<lparr>PeerId = 11, StoreId = 1\<rparr>]) =
   Ok [(1, [WriteRequest_Meta \<lparr>Uuid = [7], MetaRegionId = 1, MetaRegionEpoch = (1, 1),
                               Range = Some \<lparr>Start = [97], End = [97]\<rparr>\<rparr>,
            WriteRequest_Batch 1310720000 [\<lparr>PairKey = [97], PairValue = [1], Op = Pair_Put\<rparr>]])]"
    by code_simp
qed

text \<open>The two calls that panic: no pairs at all, and a negative batch size.\<close>

lemma writeToTiKV_panics:
  "writeToTiKV enc uid composeTS now B [] region = Panic IndexOutOfRange"
  "kvs \<noteq> [] \<Longrightarrow> B < 0 \<Longrightarrow>
   writeToTiKV enc uid composeTS now B kvs region = Panic MakeSliceCapOutOfRange"
  by (simp_all add: writeToTiKV_def Let_def)








section \<open>The order of the row-change files\<close>

text \<open>
  C7 says that the sorted list of a table's row-change files has the sentinel \<open>cdclog\<close> last,
  after every \<open>cdclog.<ts>\<close>. On the code this fails. The comparison puts every file before
  the sentinel, but it also puts the sentinel before every \<open>cdclog.<ts>\<close> of its directory,
  because the path of the sentinel is a proper prefix of theirs: it is not an ordering. When
  the walk delivers \<open>cdclog.1\<close> before the sentinel, the sort moves the sentinel to the front.
\<close>

theorem sortRowChangeFiles_sentinel_first:
  "filepath_Base ''t_1/cdclog'' = logPrefix \<and>
   rowChangeLess ''t_1/cdclog.1'' ''t_1/cdclog'' \<and>
   rowChangeLess ''t_1/cdclog'' ''t_1/cdclog.1'' \<and>
   sortRowChangeFiles [''t_1/cdclog.1'', ''t_1/cdclog''] = Some [''t_1/cdclog'', ''t_1/cdclog.1'']"
  by code_simp

section \<open>Properties of the raw-range lookup\<close>

lemma bytes_Compare_simps:
  "bytes_Compare a b \<ge> 0 \<longleftrightarrow> b \<le> a"
  "bytes_Compare a b < 0 \<longleftrightarrow> a < b"
  "bytes_Compare a b \<le> 0 \<longleftrightarrow> a \<le> b"
  "bytes_Compare a b > 0 \<longleftrightarrow> b < a"
  by (auto simp: bytes_Compare_def)

lemma CompareEndKey_pos:
  "CompareEndKey a b > 0 \<longleftrightarrow> b \<noteq> [] \<and> (a = [] \<or> b < a)"
  by (auto simp: CompareEndKey_def bytes_Compare_def)

lemma fileInRange_iff:
  "fileInRange startKey endKey cf file \<longleftrightarrow>
     Cf file = cf \<and> (EndKey file = [] \<or> startKey \<le> EndKey file) \<and>
     (endKey = [] \<or> StartKey file < endKey)"
  by (auto simp: fileInRange_def bytes_Compare_simps)

lemma rawRangeLoop_eq:
  "rawRangeLoop files startKey endKey cf rawRanges =
     (case firstTouching rawRanges startKey endKey cf of
        None \<Rightarrow> Inl NoBackupData
      | Some rawRange \<Rightarrow>
          if rangeContains rawRange startKey endKey
          then Inr (filter (fileInRange startKey endKey cf) files)
          else Inl NoBackupData)"
proof (induction rawRanges)
  case Nil
  then show ?case by (simp add: firstTouching_def)
next
  case (Cons rawRange rest)
  have out: "((RawEndKey rawRange \<noteq> [] \<and> bytes_Compare startKey (RawEndKey rawRange) \<ge> 0) \<or>
              (endKey \<noteq> [] \<and> bytes_Compare (RawStartKey rawRange) endKey \<ge> 0)) \<longleftrightarrow>
      rangeOutside startKey endKey rawRange"
    by (simp add: rangeOutside_def bytes_Compare_simps)
  have part: "(bytes_Compare startKey (RawStartKey rawRange) < 0 \<or>
              CompareEndKey endKey (RawEndKey rawRange) > 0) \<longleftrightarrow>
      \<not> rangeContains rawRange startKey endKey"
    by (auto simp: rangeContains_def bytes_Compare_simps CompareEndKey_pos)
  show ?case
    using Cons.IH unfolding rawRangeLoop.simps out part
    by (simp add: firstTouching_def)
qed

text \<open>
  C10, as the code has it. The loop decides at the first raw range of the column family that
  is not wholly outside the query range: \<open>GetFilesInRawRange\<close> succeeds if and only if the
  backup is in raw-kv mode and that raw range contains the query range. On success it returns
  the files of the column family whose end key is empty or not below \<open>startKey\<close> and whose
  start key is below \<open>endKey\<close> when \<open>endKey\<close> is not empty: the query's end is exclusive, so a
  file that starts at \<open>endKey\<close> is left out, while a file that ends at \<open>startKey\<close> is kept.
\<close>

theorem GetFilesInRawRange_first_touching:
  "((\<exists>files. GetFilesInRawRange backupMeta startKey endKey cf = Inr files) \<longleftrightarrow>
      IsRawKv backupMeta \<and>
      (\<exists>rawRange. firstTouching (RawRanges backupMeta) startKey endKey cf = Some rawRange \<and>
         rangeContains rawRange startKey endKey)) \<and>
   (GetFilesInRawRange backupMeta startKey endKey cf = Inr files \<longrightarrow>
      files = filter (\<lambda>file. Cf file = cf \<and> (EndKey file = [] \<or> startKey \<le> EndKey file) \<and>
                       (endKey = [] \<or> StartKey file < endKey)) (BackupFiles backupMeta)) \<and>
   (GetFilesInRawRange backupMeta startKey endKey cf = Inr files \<and> file \<in> set files \<and> endKey \<noteq> [] \<longrightarrow>
      StartKey file \<noteq> endKey)"
proof -
  have f: "fileInRange startKey endKey cf =
      (\<lambda>file. Cf file = cf \<and> (EndKey file = [] \<or> startKey \<le> EndKey file) \<and>
                       (endKey = [] \<or> StartKey file < endKey))"
    by (rule ext) (rule fileInRange_iff)
  have 1: "(\<exists>files. GetFilesInRawRange backupMeta startKey endKey cf = Inr files) \<longleftrightarrow>
      IsRawKv backupMeta \<and>
      (\<exists>rawRange. firstTouching (RawRanges backupMeta) startKey endKey cf = Some rawRange \<and>
         rangeContains rawRange startKey endKey)"
    by (auto simp: GetFilesInRawRange_def rawRangeLoop_eq split: option.splits)
  have 2: "files = filter (\<lambda>file. Cf file = cf \<and> (EndKey file = [] \<or> startKey \<le> EndKey file) \<and>
                       (endKey = [] \<or> StartKey file < endKey)) (BackupFiles backupMeta)"
    if "GetFilesInRawRange backupMeta startKey endKey cf = Inr files"
    using that unfolding f[symmetric]
    by (auto simp: GetFilesInRawRange_def rawRangeLoop_eq split: option.splits if_splits)
  have 3: "StartKey file \<noteq> endKey"
    if "GetFilesInRawRange backupMeta startKey endKey cf = Inr files \<and> file \<in> set files \<and> endKey \<noteq> []"
    using 2[of ] that by auto
  from 1 2 3 show ?thesis by blast
qed

text \<open>
  One raw range from 1 to 9 and the query from 3 to 5: the file that ends at 3 and the file
  from 3 to 5 are returned, the file that starts at 5 is not.
\<close>

theorem GetFilesInRawRange_first_touching_witness:
  "GetFilesInRawRange
     \<lparr>IsRawKv = True,
      RawRanges = [\<lparr>RawStartKey = [1], RawEndKey = [9], RawCf = ''default''\<rparr>],
      BackupFiles =
        [\<lparr>Name = ''f1'', StartKey = [1], EndKey = [3], Cf = ''default'', TotalKvs = 1, TotalBytes = 1\<rparr>,
         \<lparr>Name = ''f2'', StartKey = [3], EndKey = [5], Cf = ''default'', TotalKvs = 1, TotalBytes = 1\<rparr>,
         \<lparr>Name = ''f3'', StartKey = [5], EndKey = [9], Cf = ''default'', TotalKvs = 1, TotalBytes = 1\<rparr>]\<rparr>
     [3] [5] ''default'' =
   Inr [\<lparr>Name = ''f1'', StartKey = [1], EndKey = [3], Cf = ''default'', TotalKvs = 1, TotalBytes = 1\<rparr>,
        \<lparr>Name = ''f2'', StartKey = [3], EndKey = [5], Cf = ''default'', TotalKvs = 1, TotalBytes = 1\<rparr>]"
proof -
  let ?raw = "\<lparr>RawStartKey = [1], RawEndKey = [9], RawCf = ''default''\<rparr>"
  let ?f1 = "\<lparr>Name = ''f1'', StartKey = [1], EndKey = [3], Cf = ''default'', TotalKvs = 1, TotalBytes = 1\<rparr>"
  let ?f2 = "\<lparr>Name = ''f2'', StartKey = [3], EndKey = [5], Cf = ''default'', TotalKvs = 1, TotalBytes = 1\<rparr>"
  let ?f3 = "\<lparr>Name = ''f3'', StartKey = [5], EndKey = [9], Cf = ''default'', TotalKvs = 1, TotalBytes = 1\<rparr>"
  let ?meta = "\<lparr>IsRawKv = True, RawRanges = [?raw], BackupFiles = [?f1, ?f2, ?f3]\<rparr>"
  have t: "firstTouching (RawRanges ?meta) [3] [5] ''default'' = Some ?raw"
    by (simp add: firstTouching_def rangeOutside_def)
  have c: "rangeContains ?raw [3] [5]"
    by (simp add: rangeContains_def)
  from GetFilesInRawRange_first_touching[of ?meta "[3]" "[5]" "''default''"] t c
  obtain files where f: "GetFilesInRawRange ?meta [3] [5] ''default'' = Inr files"
    by auto
  with GetFilesInRawRange_first_touching[of ?meta "[3]" "[5]" "''default''" files]
  have "files = [?f1, ?f2]" by simp
  with f show ?thesis by simp
qed

text \<open>
  C10 as stated fails: the second raw range contains the query range from 2 to 4, but the
  first one, from 1 to 3, overlaps it in part, and the lookup stops there with an error.
\<close>

theorem GetFilesInRawRange_stops_at_partial_overlap:
  "IsRawKv \<lparr>IsRawKv = True,
      RawRanges = [\<lparr>RawStartKey = [1], RawEndKey = [3], RawCf = ''default''\<rparr>,
                   \<lparr>RawStartKey = [1], RawEndKey = [9], RawCf = ''default''\<rparr>],
      BackupFiles = []\<rparr> \<and>
   rangeContains \<lparr>RawStartKey = [1], RawEndKey = [9], RawCf = ''default''\<rparr> [2] [4] \<and>
   GetFilesInRawRange
     \<lparr>IsRawKv = True,
      RawRanges = [\<lparr>RawStartKey = [1], RawEndKey = [3], RawCf = ''default''\<rparr>,
                   \<lparr>RawStartKey = [1], RawEndKey = [9], RawCf = ''default''\<rparr>],
      BackupFiles = []\<rparr> [2] [4] ''default'' = Inl NoBackupData"
  by (simp add: rangeContains_def GetFilesInRawRange_def bytes_Compare_def CompareEndKey_def)

end
